theory Spec2Isabelle
  imports Main "HOL-Library.Word" "HOL-Library.Multiset"
begin

unbundle bit_operations_syntax

section \<open>Data model (main.go, lines 36-74)\<close>

text \<open>
  The structs of main.go as records. Go's \<open>int\<close> is modelled as \<open>int\<close>: the only
  arithmetic on it below is the decimal rendering of a port number and the loop bounds
  of the worker pools, neither of which reaches the 64-bit limits. The mutex of
  \<open>ScanResults\<close> is not a field of the model: a critical section is one atomic
  state-passing step, and where the extent of a critical section matters it is recorded
  in an event trace.
\<close>

record PortInfo =
  Port :: int
  State :: string
  Service :: string

record HostInfo =
  Host :: string
  Status :: string
  Ports :: "PortInfo list"

record ScanInfo =
  info_Targets :: "string list"
  StartTime :: nat
  Scanner :: string
  info_DiscoveryMode :: string

record ScanResults =
  scan_info :: ScanInfo
  Hosts :: "HostInfo list"
  UnresponsiveHosts :: int

record PDive2 =
  Targets :: "string list"
  OutputDir :: string
  Threads :: int
  DiscoveryMode :: string
  Results :: ScanResults
  EnableNmap :: bool

definition NewPDive2 :: "string list \<Rightarrow> string \<Rightarrow> int \<Rightarrow> string \<Rightarrow> nat \<Rightarrow> PDive2" where
  "NewPDive2 targets outputDir threads discoveryMode now =
     \<lparr> Targets = targets, OutputDir = outputDir, Threads = threads,
       DiscoveryMode = discoveryMode,
       Results = \<lparr> scan_info = \<lparr> info_Targets = targets, StartTime = now,
                                  Scanner = ''PDive2 v2.0'',
                                  info_DiscoveryMode = discoveryMode \<rparr>,
                   Hosts = [], UnresponsiveHosts = 0 \<rparr>,
       EnableNmap = False \<rparr>"

text \<open>The first index at which a host identifier occurs: the search loops of
  \<open>ServiceEnumeration\<close> (lines 438-444) and \<open>MasscanScan\<close> (lines 682-688), which
  \<open>break\<close> at the first match and leave \<open>hostIndex = -1\<close> (here \<open>None\<close>) otherwise.\<close>

fun findHost :: "HostInfo list \<Rightarrow> string \<Rightarrow> nat option" where
  "findHost [] host = None"
| "findHost (h # hs) host =
     (if Host h = host then Some 0 else map_option Suc (findHost hs host))"

section \<open>Decimal rendering (fmt's \<open>%d\<close>)\<close>

definition digit_char :: "nat \<Rightarrow> char" where
  "digit_char d = ''0123456789'' ! d"

fun itoa_nat :: "nat \<Rightarrow> string" where
  "itoa_nat n = (if n < 10 then [digit_char n] else itoa_nat (n div 10) @ [digit_char (n mod 10)])"

declare itoa_nat.simps [simp del]

definition itoa :: "int \<Rightarrow> string" where
  "itoa i = (if i < 0 then CHR ''-'' # itoa_nat (nat (- i)) else itoa_nat (nat i))"

section \<open>Service identification (main.go, lines 424-491)\<close>

text \<open>
  What the program does to the outside world and to the lock of the result store, in the
  order it does it. \<open>HttpGet url\<close> is the blocking call \<open>client.Get(url)\<close>.
\<close>

datatype event = ResultsLock | ResultsUnlock | HttpGet string

text \<open>The map literal of \<open>ServiceEnumeration\<close> (lines 428-434).\<close>

definition serviceMap :: "int \<rightharpoonup> string" where
  "serviceMap = map_of
     [(21, ''ftp''), (22, ''ssh''), (23, ''telnet''), (25, ''smtp''), (53, ''dns''),
      (80, ''http''), (110, ''pop3''), (135, ''rpc''), (139, ''netbios''), (143, ''imap''),
      (443, ''https''), (993, ''imaps''), (995, ''pop3s''), (1723, ''pptp''),
      (3306, ''mysql''), (3389, ''rdp''), (5432, ''postgresql''), (5900, ''vnc''),
      (8080, ''http-alt''), (8443, ''https-alt'')]"

definition http_family :: "string \<Rightarrow> bool" where
  "http_family service \<longleftrightarrow>
     service = ''http'' \<or> service = ''https'' \<or> service = ''http-alt'' \<or> service = ''https-alt''"

definition service_url :: "string \<Rightarrow> string \<Rightarrow> int \<Rightarrow> string" where
  "service_url service host port =
     (let protocol = (if service = ''https'' \<or> service = ''https-alt'' then ''https'' else ''http'');
          portStr = (if port \<noteq> 80 \<and> port \<noteq> 443 then '':'' @ itoa port else '''')
      in protocol @ ''://'' @ host @ portStr)"

text \<open>
  \<open>enumerateService\<close>. The HTTP client is the parameter \<open>get\<close>: \<open>None\<close> when
  \<open>client.Get\<close> returns an error, \<open>Some s\<close> when it returns a response whose
  \<open>Server\<close> header reads \<open>s\<close> (\<open>''''\<close> when the header is absent, as
  \<open>Header.Get\<close> gives). The result is the label and the calls of \<open>client.Get\<close> made,
  each given by the URL it is called with, in order. A call is one use of the client: the
  client of \<open>net/http\<close> follows redirects within a call, so one call may send several
  requests, also to another scheme or host, and the response that \<open>get\<close> stands for is
  the last one.
\<close>

definition enumerateService ::
  "(string \<Rightarrow> string option) \<Rightarrow> string \<Rightarrow> int \<Rightarrow> (int \<rightharpoonup> string) \<Rightarrow> string \<times> string list" where
  "enumerateService get host port smap =
     (case smap port of
        None \<Rightarrow> (''unknown'', [])
      | Some service \<Rightarrow>
          if http_family service then
            (let url = service_url service host port in
             case get url of
               Some server \<Rightarrow>
                 if server \<noteq> '''' then (service @ '' ('' @ server @ '')'', [url])
                 else (service, [url])
             | None \<Rightarrow> (service, [url]))
          else (service, []))"

text \<open>The inner loop of \<open>ServiceEnumeration\<close> (lines 447-451) over one host's ports.\<close>

fun enumeratePorts ::
  "(string \<Rightarrow> string option) \<Rightarrow> string \<Rightarrow> PortInfo list \<Rightarrow> PortInfo list \<times> event list" where
  "enumeratePorts get host [] = ([], [])"
| "enumeratePorts get host (pt # pts) =
     (let (service, calls) = enumerateService get host (Port pt) serviceMap;
          (pts', evs) = enumeratePorts get host pts
      in (pt\<lparr>Service := service\<rparr> # pts', map HttpGet calls @ evs))"

text \<open>One iteration of the outer loop (lines 436-454): lock, search, label, unlock.\<close>

definition ServiceEnumeration_host ::
  "(string \<Rightarrow> string option) \<Rightarrow> ScanResults \<Rightarrow> string \<Rightarrow> ScanResults \<times> event list" where
  "ServiceEnumeration_host get res host =
     (case findHost (Hosts res) host of
        None \<Rightarrow> (res, [ResultsLock, ResultsUnlock])
      | Some i \<Rightarrow>
          (let (pts', evs) = enumeratePorts get host (Ports (Hosts res ! i))
           in (res\<lparr>Hosts := (Hosts res)[i := (Hosts res ! i)\<lparr>Ports := pts'\<rparr>]\<rparr>,
               [ResultsLock] @ evs @ [ResultsUnlock])))"

fun ServiceEnumeration ::
  "(string \<Rightarrow> string option) \<Rightarrow> string list \<Rightarrow> ScanResults \<Rightarrow> ScanResults \<times> event list" where
  "ServiceEnumeration get [] res = (res, [])"
| "ServiceEnumeration get (host # hosts) res =
     (let (res', evs) = ServiceEnumeration_host get res host;
          (res'', evs') = ServiceEnumeration get hosts res'
      in (res'', evs @ evs'))"

text \<open>The lock discipline on a trace: no blocking call between a lock and its unlock.
  The first argument says whether the lock is held.\<close>

fun lock_discipline :: "bool \<Rightarrow> event list \<Rightarrow> bool" where
  "lock_discipline held [] = True"
| "lock_discipline held (ResultsLock # es) = lock_discipline True es"
| "lock_discipline held (ResultsUnlock # es) = lock_discipline False es"
| "lock_discipline held (HttpGet url # es) = (\<not> held \<and> lock_discipline held es)"

lemma findHost_Some_iff:
  "findHost hs host = Some i \<longleftrightarrow>
     i < length hs \<and> Host (hs ! i) = host \<and> (\<forall>j < i. Host (hs ! j) \<noteq> host)"
proof (induction hs arbitrary: i)
  case Nil
  show ?case by simp
next
  case (Cons h hs)
  show ?case
  proof (cases "Host h = host")
    case True
    then show ?thesis by (cases i) auto
  next
    case False
    show ?thesis
    proof (cases i)
      case 0
      with False show ?thesis by auto
    next
      case (Suc k)
      have "(\<forall>j<Suc k. Host ((h # hs) ! j) \<noteq> host) \<longleftrightarrow> (\<forall>j<k. Host (hs ! j) \<noteq> host)"
        using False by (auto simp: less_Suc_eq_0_disj)
      with Suc False Cons.IH [of k] show ?thesis by auto
    qed
  qed
qed

lemma findHost_None_iff: "findHost hs host = None \<longleftrightarrow> host \<notin> Host ` set hs"
  by (induction hs) auto



text \<open>
  C9. The lock of the result store is held across a blocking network call in service
  identification: for a stored host with port 80 open, \<open>ServiceEnumeration\<close> takes the
  lock, calls \<open>client.Get\<close> inside \<open>enumerateService\<close>, and only then releases it, so
  the trace does not satisfy the lock discipline.
\<close>

theorem ServiceEnumeration_holds_lock_across_get:
  "snd (ServiceEnumeration (\<lambda>u. Some ''nginx'') [''10.0.0.5'']
         \<lparr> scan_info = \<lparr> info_Targets = [''10.0.0.5''], StartTime = 0,
                          Scanner = ''PDive2 v2.0'', info_DiscoveryMode = ''active'' \<rparr>,
           Hosts = [\<lparr> Host = ''10.0.0.5'', Status = ''up'',
                      Ports = [\<lparr> Port = 80, State = ''open'', Service = [] \<rparr>] \<rparr>],
           UnresponsiveHosts = 0 \<rparr>)
     = [ResultsLock, HttpGet ''http://10.0.0.5'', ResultsUnlock]
   \<and> \<not> lock_discipline False [ResultsLock, HttpGet ''http://10.0.0.5'', ResultsUnlock]"
  by (simp add: ServiceEnumeration_host_def enumerateService_def serviceMap_def
      http_family_def service_url_def)

section \<open>Worker pool (main.go, lines 227-251, 264-286, 345-364, 372-401)\<close>

text \<open>
  Every scanning phase uses the same pattern: a buffered channel is filled with all items
  and closed, \<open>for i := 0; i < n; i++\<close> starts \<open>n\<close> goroutines that each loop
  \<open>for item := range ch\<close>, and \<open>wg.Wait()\<close> returns when all of them have left
  their loop. The pattern is modelled as a transition system: a worker that is idle
  receives the head of the channel, a busy worker finishes its item (the entry in
  \<open>done_log\<close>), and an idle worker that finds the channel empty (it is closed) exits.
  The steps of different workers interleave in any order.
\<close>

datatype 'a worker = Idle | Busy 'a | Exited

record 'a pool =
  chan :: "'a list"
  workers :: "'a worker list"
  done_log :: "(nat \<times> 'a) list"

text \<open>The number of goroutines \<open>for i := 0; i < n; i++\<close> starts.\<close>

definition num_workers :: "int \<Rightarrow> nat" where
  "num_workers n = (if n \<le> 0 then 0 else nat n)"

definition pool_init :: "nat \<Rightarrow> 'a list \<Rightarrow> 'a pool" where
  "pool_init n items = \<lparr> chan = items, workers = replicate n Idle, done_log = [] \<rparr>"

inductive pool_step :: "'a pool \<Rightarrow> 'a pool \<Rightarrow> bool" where
  recv: "w < length (workers s) \<Longrightarrow> workers s ! w = Idle \<Longrightarrow> chan s = x # rest \<Longrightarrow>
         pool_step s (s\<lparr>chan := rest, workers := (workers s)[w := Busy x]\<rparr>)"
| work: "w < length (workers s) \<Longrightarrow> workers s ! w = Busy x \<Longrightarrow>
         pool_step s (s\<lparr>workers := (workers s)[w := Idle], done_log := done_log s @ [(w, x)]\<rparr>)"
| exit: "w < length (workers s) \<Longrightarrow> workers s ! w = Idle \<Longrightarrow> chan s = [] \<Longrightarrow>
         pool_step s (s\<lparr>workers := (workers s)[w := Exited]\<rparr>)"

text \<open>\<open>wg.Wait()\<close> returns: every worker that was started has called \<open>wg.Done()\<close>.\<close>

definition pool_returned :: "'a pool \<Rightarrow> bool" where
  "pool_returned s = list_all (\<lambda>w. w = Exited) (workers s)"

fun in_hand :: "'a worker \<Rightarrow> 'a multiset" where
  "in_hand (Busy x) = {#x#}"
| "in_hand Idle = {#}"
| "in_hand Exited = {#}"

fun worker_weight :: "'a worker \<Rightarrow> nat" where
  "worker_weight Idle = 1"
| "worker_weight (Busy x) = 2"
| "worker_weight Exited = 0"

definition pool_measure :: "'a pool \<Rightarrow> nat" where
  "pool_measure s = 3 * length (chan s) + sum_list (map worker_weight (workers s))"

text \<open>
  The items a pool of \<open>n\<close> workers has processed when it returns, in queue order: all of
  them when a worker exists, none otherwise. The sequential definitions of the phases
  below use it. Whenever the transition system has returned, the items in \<open>done_log\<close>
  are these, as a multiset (lemma \<open>pool_returned_log\<close>). The number of workers does not
  show in the sequential definitions: it is a property of the pools of the phases, which
  the last section states.
\<close>

definition workerPool :: "int \<Rightarrow> 'a list \<Rightarrow> 'a list" where
  "workerPool n items = (if 0 < n then items else [])"

definition pool_inv :: "nat \<Rightarrow> 'a list \<Rightarrow> 'a pool \<Rightarrow> bool" where
  "pool_inv n items s \<longleftrightarrow>
     length (workers s) = n
     \<and> mset (map snd (done_log s)) + sum_list (map in_hand (workers s)) + mset (chan s) = mset items
     \<and> (Exited \<in> set (workers s) \<longrightarrow> chan s = [])
     \<and> (\<forall>e \<in> set (done_log s). fst e < n)"

lemma in_hand_update:
  "w < length ws \<Longrightarrow> sum_list (map in_hand (ws[w := v])) + in_hand (ws ! w) = sum_list (map in_hand ws) + in_hand v"
  by (induction ws arbitrary: w) (auto split: nat.splits simp: ac_simps)

lemma weight_update:
  "w < length ws \<Longrightarrow> sum_list (map worker_weight (ws[w := v])) + worker_weight (ws ! w) = sum_list (map worker_weight ws) + worker_weight v"
  by (induction ws arbitrary: w) (auto split: nat.splits)

lemma sum_in_hand_replicate: "sum_list (map in_hand (replicate n Idle)) = {#}"
  by (induction n) auto

lemma pool_inv_init: "pool_inv n items (pool_init n items)"
  using sum_in_hand_replicate [of n] by (simp add: pool_inv_def pool_init_def)

lemma set_update_Exited:
  "Exited \<in> set (ws[w := v]) \<Longrightarrow> v \<noteq> Exited \<Longrightarrow> Exited \<in> set ws"
  using set_update_subset_insert [of ws w v] by auto

lemma pool_inv_step:
  assumes "pool_step s s'" and "pool_inv n items s"
  shows "pool_inv n items s'"
  using assms(1)
proof (cases rule: pool_step.cases)
  case (recv w x rest)
  have "sum_list (map in_hand ((workers s)[w := Busy x])) = sum_list (map in_hand (workers s)) + {#x#}"
    using in_hand_update [of w "workers s" "Busy x"] recv by simp
  moreover have "Exited \<notin> set ((workers s)[w := Busy x])"
    using assms(2) recv set_update_Exited [of "workers s" w "Busy x"] by (auto simp: pool_inv_def)
  ultimately show ?thesis
    using assms(2) recv by (simp add: pool_inv_def)
next
  case (work w x)
  have eq: "sum_list (map in_hand (workers s)) = sum_list (map in_hand ((workers s)[w := Idle])) + {#x#}"
    using in_hand_update [of w "workers s" Idle] work by simp
  have "mset (map snd (done_log s)) + sum_list (map in_hand (workers s)) + mset (chan s) = mset items"
    using assms(2) by (simp add: pool_inv_def)
  then have m: "mset (map snd (done_log s @ [(w, x)])) + sum_list (map in_hand ((workers s)[w := Idle]))
      + mset (chan s) = mset items"
    unfolding eq by simp
  have e: "Exited \<in> set ((workers s)[w := Idle]) \<longrightarrow> chan s = []"
    using assms(2) set_update_Exited [of "workers s" w Idle] by (auto simp: pool_inv_def)
  have l: "\<forall>e \<in> set (done_log s @ [(w, x)]). fst e < n"
    using assms(2) work by (auto simp: pool_inv_def)
  have len: "length ((workers s)[w := Idle]) = n"
    using assms(2) by (simp add: pool_inv_def)
  show ?thesis
    unfolding pool_inv_def using m e l len work(1) by simp
next
  case (exit w)
  have "sum_list (map in_hand ((workers s)[w := Exited])) = sum_list (map in_hand (workers s))"
    using in_hand_update [of w "workers s" Exited] exit by simp
  then show ?thesis
    using assms(2) exit by (simp add: pool_inv_def)
qed

lemma pool_inv_reachable:
  "pool_step\<^sup>*\<^sup>* (pool_init n items) s \<Longrightarrow> pool_inv n items s"
  by (induction rule: rtranclp_induct) (auto intro: pool_inv_init pool_inv_step)

lemma sum_in_hand_Exited:
  "list_all (\<lambda>w. w = Exited) ws \<Longrightarrow> sum_list (map in_hand ws) = {#}"
  by (induction ws) auto

lemma pool_returned_processed:
  assumes "pool_inv n items s" and "pool_returned s" and "0 < n"
  shows "mset (map snd (done_log s)) = mset items"
proof -
  from assms have "workers s \<noteq> []" by (auto simp: pool_inv_def)
  with assms(2) have "Exited \<in> set (workers s)"
    by (cases "workers s") (auto simp: pool_returned_def)
  with assms(1) have "chan s = []" by (simp add: pool_inv_def)
  moreover have "sum_list (map in_hand (workers s)) = {#}"
    using assms(2) by (simp add: pool_returned_def sum_in_hand_Exited)
  ultimately show ?thesis using assms(1) by (simp add: pool_inv_def)
qed

lemma pool_step_measure: "pool_step s s' \<Longrightarrow> pool_measure s' < pool_measure s"
proof (induction rule: pool_step.induct)
  case (recv w s x rest)
  then show ?case using weight_update [of w "workers s" "Busy x"] by (simp add: pool_measure_def)
next
  case (work w s x)
  then show ?case using weight_update [of w "workers s" Idle] by (simp add: pool_measure_def)
next
  case (exit w s)
  then show ?case using weight_update [of w "workers s" Exited] by (simp add: pool_measure_def)
qed

lemma pool_progress:
  assumes "\<not> pool_returned s"
  shows "\<exists>s'. pool_step s s'"
proof -
  from assms obtain w where w: "w < length (workers s)" "workers s ! w \<noteq> Exited"
    by (auto simp: pool_returned_def list_all_length)
  show ?thesis
  proof (cases "workers s ! w")
    case Idle
    show ?thesis
    proof (cases "chan s")
      case Nil
      with w Idle show ?thesis by (blast intro: pool_step.exit)
    next
      case (Cons x rest)
      with w Idle show ?thesis by (blast intro: pool_step.recv)
    qed
  next
    case (Busy x)
    with w show ?thesis by (blast intro: pool_step.work)
  next
    case Exited
    with w show ?thesis by simp
  qed
qed

lemma pool_no_workers:
  "pool_step\<^sup>*\<^sup>* (pool_init 0 items) s \<Longrightarrow> s = pool_init 0 items"
proof (induction rule: rtranclp_induct)
  case base
  show ?case by simp
next
  case (step y z)
  then show ?case by (auto simp: pool_init_def elim: pool_step.cases)
qed

section \<open>Host discovery (main.go, lines 214-337)\<close>

text \<open>
  The order in which Go ranges over a map, and the order in which concurrent workers
  append to a shared slice, are not determined by the program. Both are modelled by
  \<open>permute\<close>: each number of the first argument picks (modulo the number of elements
  left) the element that comes next; elements left over when the picks run out follow in
  their own order. \<open>permute [] xs = xs\<close>.
\<close>

fun permute :: "nat list \<Rightarrow> 'a list \<Rightarrow> 'a list" where
  "permute [] xs = xs"
| "permute (k # ks) xs =
     (if xs = [] then []
      else let i = k mod length xs in xs ! i # permute ks (take i xs @ drop (Suc i) xs))"

definition discoveryPorts :: "int list" where
  "discoveryPorts = [80, 443, 22, 21, 25, 53, 135, 139, 445]"

text \<open>
  \<open>portDiscovery\<close> (lines 328-337). \<open>dial host port\<close> says whether
  \<open>net.DialTimeout\<close> to that address succeeds. The second component of the result
  lists the ports dialled, in order.
\<close>

fun portDiscovery :: "(string \<Rightarrow> int \<Rightarrow> bool) \<Rightarrow> string \<Rightarrow> int list \<Rightarrow> bool \<times> int list" where
  "portDiscovery dial host [] = (False, [])"
| "portDiscovery dial host (port # ports) =
     (if dial host port then (True, [port])
      else (let (found, tried) = portDiscovery dial host ports in (found, port # tried)))"

text \<open>
  The state of \<open>HostDiscovery\<close> while it runs: the result store \<open>p.Results\<close>, the keys
  of the local map \<open>liveHosts\<close>, and two logs of the probes made (the hosts given to
  \<open>pingHost\<close>, and the hosts given to \<open>portDiscovery\<close> with the ports it dialled).
\<close>

record discovery =
  store :: ScanResults
  liveHosts :: "string list"
  pinged :: "string list"
  port_probed :: "(string \<times> int list) list"

text \<open>\<open>liveHosts[host] = true\<close> under the local mutex \<open>mu\<close>.\<close>

definition mark_live :: "string \<Rightarrow> discovery \<Rightarrow> discovery" where
  "mark_live host st =
     st\<lparr>liveHosts := (if host \<in> set (liveHosts st) then liveHosts st else liveHosts st @ [host])\<rparr>"

text \<open>The body of a phase-1 worker's loop (lines 240-247).\<close>

definition ping_worker :: "(string \<Rightarrow> bool) \<Rightarrow> string \<Rightarrow> discovery \<Rightarrow> discovery" where
  "ping_worker pingHost host st =
     (let st' = st\<lparr>pinged := pinged st @ [host]\<rparr>
      in if pingHost host then mark_live host st' else st')"

text \<open>The body of a phase-2 worker's loop (lines 275-282).\<close>

definition port_worker :: "(string \<Rightarrow> int \<Rightarrow> bool) \<Rightarrow> string \<Rightarrow> discovery \<Rightarrow> discovery" where
  "port_worker dial host st =
     (let (found, tried) = portDiscovery dial host discoveryPorts;
          st' = st\<lparr>port_probed := port_probed st @ [(host, tried)]\<rparr>
      in if found then mark_live host st' else st')"

text \<open>
  A phase runs its worker body on every item its pool processes. A body is a probe
  followed by at most one update under the local mutex, so a concurrent run has the effect
  of the bodies taken in some order; the folds below take them in queue order. The order
  shows only in the order of the keys of \<open>liveHosts\<close> and of the two logs, which are
  read as collections: the slice of live hosts is permuted when the map is ranged over.
\<close>

definition phase1 :: "(string \<Rightarrow> bool) \<Rightarrow> int \<Rightarrow> string list \<Rightarrow> discovery \<Rightarrow> discovery" where
  "phase1 pingHost threads allHosts st = fold (ping_worker pingHost) (workerPool threads allHosts) st"

definition nonPingHosts :: "string list \<Rightarrow> discovery \<Rightarrow> string list" where
  "nonPingHosts allHosts st = filter (\<lambda>host. host \<notin> set (liveHosts st)) allHosts"

definition phase2 :: "(string \<Rightarrow> int \<Rightarrow> bool) \<Rightarrow> int \<Rightarrow> string list \<Rightarrow> discovery \<Rightarrow> discovery" where
  "phase2 dial threads allHosts st =
     (let nph = nonPingHosts allHosts st
      in if nph \<noteq> [] then fold (port_worker dial) (workerPool (min threads 20) nph) st else st)"

definition up_host :: "string \<Rightarrow> HostInfo" where
  "up_host host = \<lparr> Host = host, Status = ''up'', Ports = [] \<rparr>"

text \<open>Lines 289-305: the map is turned into a slice and the store is updated.\<close>

definition commit_live :: "nat list \<Rightarrow> string list \<Rightarrow> discovery \<Rightarrow> string list \<times> discovery" where
  "commit_live order allHosts st =
     (let liveHostsList = permute order (liveHosts st)
      in (liveHostsList,
          st\<lparr>store := (store st)\<lparr>Hosts := Hosts (store st) @ map up_host liveHostsList,
                                 UnresponsiveHosts := int (length allHosts) - int (length liveHostsList)\<rparr>\<rparr>))"

text \<open>
  \<open>HostDiscovery\<close> after \<open>allHosts := p.expandTargets()\<close>. The result is the returned
  slice, the scanner with its updated store, and the final discovery state (for its logs).
\<close>

definition HostDiscovery_from ::
  "(string \<Rightarrow> bool) \<Rightarrow> (string \<Rightarrow> int \<Rightarrow> bool) \<Rightarrow> nat list \<Rightarrow> PDive2 \<Rightarrow> string list
     \<Rightarrow> string list \<times> PDive2 \<times> discovery" where
  "HostDiscovery_from pingHost dial order p allHosts =
     (let st0 = \<lparr> store = Results p, liveHosts = [], pinged = [], port_probed = [] \<rparr>;
          st1 = phase1 pingHost (Threads p) allHosts st0;
          st2 = phase2 dial (Threads p) allHosts st1;
          (liveHostsList, st3) = commit_live order allHosts st2
      in (liveHostsList, p\<lparr>Results := store st3\<rparr>, st3))"

lemma mset_permute: "mset (permute ks xs) = mset xs"
proof (induction ks arbitrary: xs)
  case Nil
  show ?case by simp
next
  case (Cons k ks)
  show ?case
  proof (cases "xs = []")
    case True
    then show ?thesis by simp
  next
    case False
    define i where "i = k mod length xs"
    have i: "i < length xs" using False by (simp add: i_def)
    have "mset xs = mset (take i xs @ xs ! i # drop (Suc i) xs)"
      using i by (simp add: id_take_nth_drop [symmetric])
    then show ?thesis
      using False Cons.IH [of "take i xs @ drop (Suc i) xs"] by (simp add: Let_def i_def [symmetric])
  qed
qed

lemma set_permute [simp]: "set (permute ks xs) = set xs"
  using mset_permute [of ks xs] by (metis set_mset_mset)

lemma length_permute [simp]: "length (permute ks xs) = length xs"
  using mset_permute [of ks xs] by (metis size_mset)

lemma distinct_permute [simp]: "distinct (permute ks xs) = distinct xs"
  using mset_permute [of ks xs] by (metis mset_eq_imp_distinct_iff)

lemma portDiscovery_found:
  "fst (portDiscovery dial host ports) \<longleftrightarrow> (\<exists>port \<in> set ports. dial host port)"
  by (induction ports) (auto split: prod.splits)

lemma portDiscovery_tried:
  "snd (portDiscovery dial host ports) =
     takeWhile (\<lambda>port. \<not> dial host port) ports @ take 1 (dropWhile (\<lambda>port. \<not> dial host port) ports)"
  by (induction ports) (auto split: prod.splits)

lemma fold_ping_worker:
  "store (fold (ping_worker f) hs st) = store st
   \<and> port_probed (fold (ping_worker f) hs st) = port_probed st
   \<and> pinged (fold (ping_worker f) hs st) = pinged st @ hs
   \<and> set (liveHosts (fold (ping_worker f) hs st)) = set (liveHosts st) \<union> {h \<in> set hs. f h}
   \<and> (distinct (liveHosts st) \<longrightarrow> distinct (liveHosts (fold (ping_worker f) hs st)))"
  by (induction hs arbitrary: st) (auto simp: ping_worker_def mark_live_def Let_def)

lemma fold_port_worker:
  "store (fold (port_worker d) hs st) = store st
   \<and> pinged (fold (port_worker d) hs st) = pinged st
   \<and> port_probed (fold (port_worker d) hs st)
       = port_probed st @ map (\<lambda>h. (h, snd (portDiscovery d h discoveryPorts))) hs
   \<and> set (liveHosts (fold (port_worker d) hs st))
       = set (liveHosts st) \<union> {h \<in> set hs. fst (portDiscovery d h discoveryPorts)}
   \<and> (distinct (liveHosts st) \<longrightarrow> distinct (liveHosts (fold (port_worker d) hs st)))"
  by (induction hs arbitrary: st) (auto simp: port_worker_def mark_live_def Let_def split: prod.splits)

lemma phase1_facts:
  "store (phase1 f t hs st) = store st
   \<and> port_probed (phase1 f t hs st) = port_probed st
   \<and> pinged (phase1 f t hs st) = pinged st @ workerPool t hs
   \<and> set (liveHosts (phase1 f t hs st)) = set (liveHosts st) \<union> {h \<in> set (workerPool t hs). f h}
   \<and> (distinct (liveHosts st) \<longrightarrow> distinct (liveHosts (phase1 f t hs st)))"
  unfolding phase1_def by (rule fold_ping_worker)

lemma phase2_facts:
  "store (phase2 d t hs st) = store st
   \<and> pinged (phase2 d t hs st) = pinged st
   \<and> port_probed (phase2 d t hs st)
       = port_probed st @ map (\<lambda>h. (h, snd (portDiscovery d h discoveryPorts)))
                             (workerPool (min t 20) (nonPingHosts hs st))
   \<and> set (liveHosts (phase2 d t hs st))
       = set (liveHosts st) \<union> {h \<in> set (workerPool (min t 20) (nonPingHosts hs st)).
                                  fst (portDiscovery d h discoveryPorts)}
   \<and> (distinct (liveHosts st) \<longrightarrow> distinct (liveHosts (phase2 d t hs st)))"
proof (cases "nonPingHosts hs st = []")
  case True
  then show ?thesis by (simp add: phase2_def workerPool_def)
next
  case False
  then show ?thesis
    using fold_port_worker [of d "workerPool (min t 20) (nonPingHosts hs st)" st]
    by (simp add: phase2_def)
qed

text \<open>
  C3 (amended). When the configured thread count is at least 1, phase 2 probes exactly
  the expanded targets that did not respond to the ping of phase 1, each once; for
  each of them the fallback ports are dialled in sequence up to and including the first
  that connects, no further, and the host is live exactly when one of them connects; the
  live hosts are the targets that answered the ping or accepted a fallback connect. For
  every thread count, a host that neither answers the ping nor accepts a connect on a
  fallback port is not live, no host is returned twice, every live host is an expanded
  target, and the recorded unresponsive count plus the number of live hosts is the number
  of expanded targets.
\<close>

theorem HostDiscovery_postcondition:
  assumes "HostDiscovery_from pingHost dial order p allHosts = (live, p', st)"
  shows "(0 < Threads p \<longrightarrow>
            mset (map fst (port_probed st)) = mset (filter (\<lambda>h. \<not> pingHost h) allHosts)
          \<and> (\<forall>h \<in> set (filter (\<lambda>h. \<not> pingHost h) allHosts).
                (h, takeWhile (\<lambda>port. \<not> dial h port) discoveryPorts
                     @ take 1 (dropWhile (\<lambda>port. \<not> dial h port) discoveryPorts))
                  \<in> set (port_probed st)
                \<and> (h \<in> set live \<longleftrightarrow> (\<exists>port \<in> set discoveryPorts. dial h port)))
          \<and> set live = {h \<in> set allHosts. pingHost h \<or> (\<exists>port \<in> set discoveryPorts. dial h port)})
       \<and> (\<forall>h. \<not> pingHost h \<and> (\<forall>port \<in> set discoveryPorts. \<not> dial h port) \<longrightarrow> h \<notin> set live)
       \<and> distinct live \<and> set live \<subseteq> set allHosts
       \<and> UnresponsiveHosts (Results p') + int (length live) = int (length allHosts)"
proof -
  define st0 where "st0 = \<lparr> store = Results p, liveHosts = [], pinged = [], port_probed = [] \<rparr>"
  define st1 where "st1 = phase1 pingHost (Threads p) allHosts st0"
  define st2 where "st2 = phase2 dial (Threads p) allHosts st1"
  have live: "live = permute order (liveHosts st2)"
    and st: "st = snd (commit_live order allHosts st2)"
    and p': "p' = p\<lparr>Results := store st\<rparr>"
    using assms
    by (auto simp: HostDiscovery_from_def Let_def st0_def st1_def st2_def commit_live_def
        split: prod.splits)
  have f1: "set (liveHosts st1) = {h \<in> set (workerPool (Threads p) allHosts). pingHost h}"
    "distinct (liveHosts st1)" "port_probed st1 = []"
    using phase1_facts [of pingHost "Threads p" allHosts st0] by (simp_all add: st1_def st0_def)
  have f2: "set (liveHosts st2) = set (liveHosts st1)
      \<union> {h \<in> set (workerPool (min (Threads p) 20) (nonPingHosts allHosts st1)).
            fst (portDiscovery dial h discoveryPorts)}"
    "distinct (liveHosts st2)"
    "port_probed st2 = map (\<lambda>h. (h, snd (portDiscovery dial h discoveryPorts)))
                             (workerPool (min (Threads p) 20) (nonPingHosts allHosts st1))"
    using phase2_facts [of dial "Threads p" allHosts st1] f1 by (simp_all add: st2_def)
  have probed: "port_probed st = port_probed st2"
    by (simp add: st commit_live_def Let_def)
  have sub: "set (liveHosts st2) \<subseteq> {h \<in> set allHosts. pingHost h \<or> (\<exists>port \<in> set discoveryPorts. dial h port)}"
    unfolding f2(1) f1(1)
    by (auto simp: workerPool_def nonPingHosts_def portDiscovery_found split: if_splits)
  have count: "UnresponsiveHosts (Results p') + int (length live) = int (length allHosts)"
    by (simp add: p' st live commit_live_def Let_def)
  have pos: "mset (map fst (port_probed st)) = mset (filter (\<lambda>h. \<not> pingHost h) allHosts)
          \<and> (\<forall>h \<in> set (filter (\<lambda>h. \<not> pingHost h) allHosts).
                (h, takeWhile (\<lambda>port. \<not> dial h port) discoveryPorts
                     @ take 1 (dropWhile (\<lambda>port. \<not> dial h port) discoveryPorts))
                  \<in> set (port_probed st)
                \<and> (h \<in> set live \<longleftrightarrow> (\<exists>port \<in> set discoveryPorts. dial h port)))
          \<and> set live = {h \<in> set allHosts. pingHost h \<or> (\<exists>port \<in> set discoveryPorts. dial h port)}"
    if t: "0 < Threads p"
  proof -
    have l1: "set (liveHosts st1) = {h \<in> set allHosts. pingHost h}"
      using f1(1) t by (simp add: workerPool_def)
    have nph: "nonPingHosts allHosts st1 = filter (\<lambda>h. \<not> pingHost h) allHosts"
      unfolding nonPingHosts_def l1 by (rule filter_cong) auto
    have wp: "workerPool (min (Threads p) 20) (nonPingHosts allHosts st1)
        = filter (\<lambda>h. \<not> pingHost h) allHosts"
      using t by (simp add: workerPool_def nph)
    have l2: "set (liveHosts st2)
        = {h \<in> set allHosts. pingHost h \<or> (\<exists>port \<in> set discoveryPorts. dial h port)}"
      unfolding f2(1) wp l1 by (auto simp: portDiscovery_found)
    have a: "map fst (port_probed st) = filter (\<lambda>h. \<not> pingHost h) allHosts"
      unfolding probed f2(3) wp by (simp add: comp_def)
    have b: "(h, takeWhile (\<lambda>port. \<not> dial h port) discoveryPorts
                     @ take 1 (dropWhile (\<lambda>port. \<not> dial h port) discoveryPorts))
                  \<in> set (port_probed st)"
      if "h \<in> set (filter (\<lambda>h. \<not> pingHost h) allHosts)" for h
      unfolding probed f2(3) wp using that by (auto simp: portDiscovery_tried image_iff)
    have c: "h \<in> set live \<longleftrightarrow> (\<exists>port \<in> set discoveryPorts. dial h port)"
      if "h \<in> set (filter (\<lambda>h. \<not> pingHost h) allHosts)" for h
      using that by (auto simp: live l2)
    show ?thesis using a b c by (simp add: live l2)
  qed
  have neg: "\<forall>h. \<not> pingHost h \<and> (\<forall>port \<in> set discoveryPorts. \<not> dial h port) \<longrightarrow> h \<notin> set live"
    using sub by (auto simp: live)
  have d: "distinct live" "set live \<subseteq> set allHosts"
    using f2(2) sub by (auto simp: live)
  show ?thesis using pos neg d count by blast
qed

lemmas discovery_eval =
  HostDiscovery_from_def phase1_def phase2_def workerPool_def ping_worker_def port_worker_def
  mark_live_def nonPingHosts_def discoveryPorts_def commit_live_def up_host_def NewPDive2_def
  Let_def

theorem HostDiscovery_postcondition_witness:
  "fst (HostDiscovery_from (\<lambda>h. h = ''10.0.0.1'') (\<lambda>h port. h = ''10.0.0.2'' \<and> port = 443) []
          (NewPDive2 [''10.0.0.0/30''] ''out'' 50 ''active'' 0)
          [''10.0.0.1'', ''10.0.0.2'', ''10.0.0.3''])
     = [''10.0.0.1'', ''10.0.0.2'']
   \<and> port_probed (snd (snd (HostDiscovery_from (\<lambda>h. h = ''10.0.0.1'')
          (\<lambda>h port. h = ''10.0.0.2'' \<and> port = 443) []
          (NewPDive2 [''10.0.0.0/30''] ''out'' 50 ''active'' 0)
          [''10.0.0.1'', ''10.0.0.2'', ''10.0.0.3''])))
     = [(''10.0.0.2'', [80, 443]), (''10.0.0.3'', [80, 443, 22, 21, 25, 53, 135, 139, 445])]
   \<and> UnresponsiveHosts (Results (fst (snd (HostDiscovery_from (\<lambda>h. h = ''10.0.0.1'')
          (\<lambda>h port. h = ''10.0.0.2'' \<and> port = 443) []
          (NewPDive2 [''10.0.0.0/30''] ''out'' 50 ''active'' 0)
          [''10.0.0.1'', ''10.0.0.2'', ''10.0.0.3''])))) = 1"
proof -
  let ?H = "HostDiscovery_from (\<lambda>h. h = ''10.0.0.1'') (\<lambda>h port. h = ''10.0.0.2'' \<and> port = 443) []
          (NewPDive2 [''10.0.0.0/30''] ''out'' 50 ''active'' 0)
          [''10.0.0.1'', ''10.0.0.2'', ''10.0.0.3'']"
  have run: "?H = (fst ?H, fst (snd ?H), snd (snd ?H))" by simp
  have t: "0 < Threads (NewPDive2 [''10.0.0.0/30''] ''out'' 50 ''active'' 0)"
    by (simp add: NewPDive2_def)
  show ?thesis
    using HostDiscovery_postcondition [OF run] t by (simp add: discovery_eval)
qed

text \<open>
  C3 as stated fails at a thread count of 0: the target does not respond in phase 1 and
  every fallback port would connect, yet phase 2 probes no host and no host is live.
\<close>

theorem HostDiscovery_zero_threads_counterexample:
  "filter (\<lambda>h. \<not> (\<lambda>h. False) h) [''10.0.0.1''] = [''10.0.0.1'']
   \<and> port_probed (snd (snd (HostDiscovery_from (\<lambda>h. False) (\<lambda>h port. True) []
          (NewPDive2 [''10.0.0.1''] ''out'' 0 ''active'' 0) [''10.0.0.1'']))) = []
   \<and> fst (HostDiscovery_from (\<lambda>h. False) (\<lambda>h port. True) []
          (NewPDive2 [''10.0.0.1''] ''out'' 0 ''active'' 0) [''10.0.0.1'']) = []"
  by (simp add: discovery_eval)

text \<open>
  C8 (amended). During host discovery neither liveness phase writes to the result store:
  each records its live hosts in the local map \<open>liveHosts\<close>, and the store receives
  all of them in a single batch, appended in one critical section after both phases
  have finished.
\<close>

theorem HostDiscovery_batch_commit:
  "store (phase1 pingHost threads allHosts st) = store st
   \<and> store (phase2 dial threads allHosts st) = store st
   \<and> Hosts (store (snd (commit_live order allHosts st)))
       = Hosts (store st) @ map up_host (fst (commit_live order allHosts st))
   \<and> Hosts (Results (fst (snd (HostDiscovery_from pingHost dial order p allHosts))))
       = Hosts (Results p) @ map up_host (fst (HostDiscovery_from pingHost dial order p allHosts))"
proof -
  have "store (phase2 dial (Threads p) allHosts (phase1 pingHost (Threads p) allHosts s0)) = store s0"
    for s0
    using phase1_facts [of pingHost "Threads p" allHosts s0]
      phase2_facts [of dial "Threads p" allHosts "phase1 pingHost (Threads p) allHosts s0"]
    by simp
  then show ?thesis
    using phase1_facts [of pingHost threads allHosts st] phase2_facts [of dial threads allHosts st]
    by (simp add: commit_live_def HostDiscovery_from_def Let_def)
qed

theorem HostDiscovery_batch_commit_witness:
  "Hosts (Results (fst (snd (HostDiscovery_from (\<lambda>h. True) (\<lambda>h port. False) []
       (NewPDive2 [''10.0.0.1''] ''out'' 50 ''active'' 0) [''10.0.0.1'']))))
     = [up_host ''10.0.0.1'']"
  using HostDiscovery_batch_commit [of "\<lambda>h. True" 50 "[''10.0.0.1'']"
      "\<lparr> store = Results (NewPDive2 [''10.0.0.1''] ''out'' 50 ''active'' 0), liveHosts = [],
         pinged = [], port_probed = [] \<rparr>"
      "\<lambda>h port. False" "[]" "NewPDive2 [''10.0.0.1''] ''out'' 50 ''active'' 0"]
  by (simp add: discovery_eval)

text \<open>
  C8 as stated fails: after both phases have run and found a live host, the host is in
  the local map only and the store still holds no host.
\<close>

theorem HostDiscovery_no_incremental_write_counterexample:
  "liveHosts (phase2 (\<lambda>h port. False) 50 [''10.0.0.1'']
        (phase1 (\<lambda>h. True) 50 [''10.0.0.1'']
           \<lparr> store = Results (NewPDive2 [''10.0.0.1''] ''out'' 50 ''active'' 0),
             liveHosts = [], pinged = [], port_probed = [] \<rparr>)) = [''10.0.0.1'']
   \<and> Hosts (store (phase2 (\<lambda>h port. False) 50 [''10.0.0.1'']
        (phase1 (\<lambda>h. True) 50 [''10.0.0.1'']
           \<lparr> store = Results (NewPDive2 [''10.0.0.1''] ''out'' 50 ''active'' 0),
             liveHosts = [], pinged = [], port_probed = [] \<rparr>))) = []"
  by (simp add: discovery_eval)

section \<open>Port scanning (main.go, lines 339-422)\<close>

definition commonPorts :: "int list" where
  "commonPorts = [21, 22, 23, 25, 53, 80, 110, 111, 135, 139, 143, 443, 993, 995, 1723,
                  3306, 3389, 5432, 5900, 8080, 8443]"

text \<open>\<open>scanPort\<close> (lines 415-422): whether \<open>net.DialTimeout\<close> succeeds.\<close>

definition scanPort :: "(string \<Rightarrow> int \<Rightarrow> bool) \<Rightarrow> string \<Rightarrow> int \<Rightarrow> bool" where
  "scanPort dial host port = dial host port"

definition open_port :: "int \<Rightarrow> PortInfo" where
  "open_port port = \<lparr> Port = port, State = ''open'', Service = '''' \<rparr>"

text \<open>The update loop of \<open>scanHostPorts\<close> (lines 405-410): the first record with the
  host's identifier gets the new ports, then \<open>break\<close>.\<close>

fun setPorts :: "HostInfo list \<Rightarrow> string \<Rightarrow> PortInfo list \<Rightarrow> HostInfo list" where
  "setPorts [] host openPorts = []"
| "setPorts (h # hs) host openPorts =
     (if Host h = host then h\<lparr>Ports := openPorts\<rparr> # hs else h # setPorts hs host openPorts)"

text \<open>
  \<open>scanHostPorts\<close>. The workers of the pool probe the ports they receive and append the
  open ones to \<open>openPorts\<close> under the local mutex, in the order \<open>order\<close> picks. The
  result is the updated store and the log of the probes made, each with its outcome.
\<close>

definition scanHostPorts ::
  "(string \<Rightarrow> int \<Rightarrow> bool) \<Rightarrow> nat list \<Rightarrow> int \<Rightarrow> string \<Rightarrow> int list \<Rightarrow> ScanResults
     \<Rightarrow> ScanResults \<times> (int \<times> bool) list" where
  "scanHostPorts dial order threads host ports res =
     (let probed = workerPool (min threads 50) ports;
          openPorts = map open_port (permute order (filter (scanPort dial host) probed))
      in (res\<lparr>Hosts := setPorts (Hosts res) host openPorts\<rparr>,
          map (\<lambda>port. (port, scanPort dial host port)) probed))"

text \<open>
  \<open>PortScan\<close>: the hosts the pool's workers receive are scanned; their store updates,
  each one critical section, take place in the order \<open>horder\<close> picks. \<open>orders host\<close>
  is the order of the appends within the scan of \<open>host\<close>.
\<close>

definition PortScan ::
  "(string \<Rightarrow> int \<Rightarrow> bool) \<Rightarrow> (string \<Rightarrow> nat list) \<Rightarrow> nat list \<Rightarrow> int \<Rightarrow> string list
     \<Rightarrow> ScanResults \<Rightarrow> ScanResults" where
  "PortScan dial orders horder threads hosts res =
     fold (\<lambda>host r. fst (scanHostPorts dial (orders host) threads host commonPorts r))
          (permute horder (workerPool threads hosts)) res"

lemma setPorts_hosts [simp]: "map Host (setPorts hs host ps) = map Host hs"
  by (induction hs) auto

lemma length_setPorts [simp]: "length (setPorts hs host ps) = length hs"
  by (induction hs) auto

lemma setPorts_update:
  "setPorts hs host ps =
     (case findHost hs host of None \<Rightarrow> hs | Some i \<Rightarrow> hs[i := (hs ! i)\<lparr>Ports := ps\<rparr>])"
  by (induction hs) (auto split: option.splits)

lemma setPorts_idem:
  "findHost hs host = Some i \<Longrightarrow>
     setPorts (hs[i := (hs ! i)\<lparr>Ports := old\<rparr>]) host ps = setPorts hs host ps"
proof (induction hs arbitrary: i)
  case Nil
  then show ?case by simp
next
  case (Cons h hs)
  then show ?case by (cases i) (auto split: if_splits)
qed

text \<open>
  C6. After \<open>scanHostPorts\<close> has finished a host that the store holds, the ports of
  that host's record (the first with its identifier) are exactly the ports that accepted
  a connect in this pass: with a thread count of at least 1 every port of the list is
  probed, and the record's port numbers are the ports of the list on which the dial
  succeeds. Each is recorded with state \<open>open\<close> and an empty service label. The
  previous collection is replaced, not merged: whatever the record held before, the
  outcome is the same. When no port is reachable the collection is empty. No other
  record changes, and no host identifier changes.
\<close>

theorem scanHostPorts_replaces_ports:
  assumes "findHost (Hosts res) host = Some i"
  shows "map Host (Hosts (fst (scanHostPorts dial order threads host ports res))) = map Host (Hosts res)
     \<and> Port ` set (Ports (Hosts (fst (scanHostPorts dial order threads host ports res)) ! i))
         = {port. (port, True) \<in> set (snd (scanHostPorts dial order threads host ports res))}
     \<and> (0 < threads \<longrightarrow>
          fst ` set (snd (scanHostPorts dial order threads host ports res)) = set ports
          \<and> Port ` set (Ports (Hosts (fst (scanHostPorts dial order threads host ports res)) ! i))
               = {port \<in> set ports. dial host port})
     \<and> (\<forall>pt \<in> set (Ports (Hosts (fst (scanHostPorts dial order threads host ports res)) ! i)).
          State pt = ''open'' \<and> Service pt = [])
     \<and> Hosts (fst (scanHostPorts dial order threads host ports
                   (res\<lparr>Hosts := (Hosts res)[i := (Hosts res ! i)\<lparr>Ports := old\<rparr>]\<rparr>)))
         = Hosts (fst (scanHostPorts dial order threads host ports res))
     \<and> ((\<forall>port \<in> set ports. \<not> dial host port) \<longrightarrow>
          Ports (Hosts (fst (scanHostPorts dial order threads host ports res)) ! i) = [])
     \<and> (\<forall>j < length (Hosts res). j \<noteq> i \<longrightarrow>
          Hosts (fst (scanHostPorts dial order threads host ports res)) ! j = Hosts res ! j)"
proof -
  define probed where "probed = workerPool (min threads 50) ports"
  define openPorts where
    "openPorts = map open_port (permute order (filter (scanPort dial host) probed))"
  have i: "i < length (Hosts res)"
    using assms by (simp add: findHost_Some_iff)
  have hosts: "Hosts (fst (scanHostPorts dial order threads host ports res))
      = (Hosts res)[i := (Hosts res ! i)\<lparr>Ports := openPorts\<rparr>]"
    using assms
    by (simp add: scanHostPorts_def Let_def setPorts_update openPorts_def probed_def)
  have log: "snd (scanHostPorts dial order threads host ports res)
      = map (\<lambda>port. (port, scanPort dial host port)) probed"
    by (simp add: scanHostPorts_def Let_def probed_def)
  have ports_i: "Ports (Hosts (fst (scanHostPorts dial order threads host ports res)) ! i) = openPorts"
    using i by (simp add: hosts)
  have nums: "Port ` set openPorts = {port \<in> set probed. dial host port}"
    by (auto simp: openPorts_def open_port_def scanPort_def image_iff)
  have c1: "map Host (Hosts (fst (scanHostPorts dial order threads host ports res))) = map Host (Hosts res)"
    by (simp add: scanHostPorts_def Let_def)
  have c2: "Port ` set openPorts
         = {port. (port, True) \<in> set (snd (scanHostPorts dial order threads host ports res))}"
    unfolding nums log by (auto simp: scanPort_def)
  have c3: "0 < threads \<longrightarrow>
          fst ` set (snd (scanHostPorts dial order threads host ports res)) = set ports
          \<and> Port ` set openPorts = {port \<in> set ports. dial host port}"
    unfolding nums log by (auto simp: probed_def workerPool_def image_iff)
  have c4: "\<forall>pt \<in> set openPorts. State pt = ''open'' \<and> Service pt = []"
    by (auto simp: openPorts_def open_port_def)
  have c5: "Hosts (fst (scanHostPorts dial order threads host ports
                   (res\<lparr>Hosts := (Hosts res)[i := (Hosts res ! i)\<lparr>Ports := old\<rparr>]\<rparr>)))
         = Hosts (fst (scanHostPorts dial order threads host ports res))"
    using setPorts_idem [OF assms] by (simp add: scanHostPorts_def Let_def)
  have c6: "(\<forall>port \<in> set ports. \<not> dial host port) \<longrightarrow> openPorts = []"
    by (auto simp: openPorts_def probed_def workerPool_def scanPort_def filter_empty_conv
        mset_permute [of order "[]", simplified] dest: arg_cong [where f = length])
  have c7: "\<forall>j < length (Hosts res). j \<noteq> i \<longrightarrow>
          Hosts (fst (scanHostPorts dial order threads host ports res)) ! j = Hosts res ! j"
    by (simp add: hosts)
  show ?thesis
    unfolding ports_i using c1 c2 c3 c4 c5 c6 c7 by blast
qed

theorem scanHostPorts_replaces_ports_witness:
  "findHost [\<lparr> Host = ''10.0.0.5'', Status = ''up'', Ports = [open_port 8080] \<rparr>,
             \<lparr> Host = ''10.0.0.6'', Status = ''up'', Ports = [] \<rparr>] ''10.0.0.5'' = Some 0
   \<and> Hosts (fst (scanHostPorts (\<lambda>h port. port = 22 \<or> port = 80) [] 50 ''10.0.0.5'' commonPorts
        \<lparr> scan_info = \<lparr> info_Targets = [], StartTime = 0, Scanner = ''PDive2 v2.0'',
                         info_DiscoveryMode = ''active'' \<rparr>,
          Hosts = [\<lparr> Host = ''10.0.0.5'', Status = ''up'', Ports = [open_port 8080] \<rparr>,
                   \<lparr> Host = ''10.0.0.6'', Status = ''up'', Ports = [] \<rparr>],
          UnresponsiveHosts = 0 \<rparr>))
     = [\<lparr> Host = ''10.0.0.5'', Status = ''up'', Ports = [open_port 22, open_port 80] \<rparr>,
        \<lparr> Host = ''10.0.0.6'', Status = ''up'', Ports = [] \<rparr>]"
proof -
  let ?res = "\<lparr> scan_info = \<lparr> info_Targets = [], StartTime = 0, Scanner = ''PDive2 v2.0'',
                         info_DiscoveryMode = ''active'' \<rparr>,
          Hosts = [\<lparr> Host = ''10.0.0.5'', Status = ''up'', Ports = [open_port 8080] \<rparr>,
                   \<lparr> Host = ''10.0.0.6'', Status = ''up'', Ports = [] \<rparr>],
          UnresponsiveHosts = 0 \<rparr>"
  have f: "findHost (Hosts ?res) ''10.0.0.5'' = Some 0" by simp
  show ?thesis
    using scanHostPorts_replaces_ports [OF f, of "\<lambda>h port. port = 22 \<or> port = 80" "[]" 50 commonPorts "[]"]
    by (simp add: scanHostPorts_def workerPool_def commonPorts_def scanPort_def Let_def)
qed

section \<open>Strings (Go's \<open>strings\<close> and \<open>strconv\<close> packages)\<close>

text \<open>
  The functions of Go's standard library that the parsers call, on byte strings (Go strings
  are byte sequences, read as UTF-8 by \<open>strings.TrimSpace\<close> and \<open>strings.Fields\<close>).

  White space is what \<open>unicode.IsSpace\<close> accepts: the code points U+0009 to U+000D, U+0020,
  U+0085, U+00A0, U+1680, U+2000 to U+200A, U+2028, U+2029, U+202F, U+205F and U+3000.
  \<open>space_encodings\<close> lists their UTF-8 encodings. Go decodes the string rune by rune (an
  invalid byte is the rune U+FFFD of width one, which is not white space) and tests each
  rune; the model matches the encodings against the bytes instead. The two agree on every
  byte string: an encoding of the list is valid UTF-8 and begins with a byte that is not a
  continuation byte (\<open>0x80\<close> to \<open>0xBF\<close>), the decoder consumes only continuation bytes
  after the first byte of a rune, so every position where an encoding matches is the start
  of a rune, and that rune is the white-space character; and no encoding matches at a
  continuation byte inside another rune.
\<close>

definition space_encodings :: "string list" where
  "space_encodings =
     [[CHR 0x09], [CHR 0x0A], [CHR 0x0B], [CHR 0x0C], [CHR 0x0D], [CHR 0x20],
      [CHR 0xC2, CHR 0x85], [CHR 0xC2, CHR 0xA0],
      [CHR 0xE1, CHR 0x9A, CHR 0x80],
      [CHR 0xE2, CHR 0x80, CHR 0x80], [CHR 0xE2, CHR 0x80, CHR 0x81],
      [CHR 0xE2, CHR 0x80, CHR 0x82], [CHR 0xE2, CHR 0x80, CHR 0x83],
      [CHR 0xE2, CHR 0x80, CHR 0x84], [CHR 0xE2, CHR 0x80, CHR 0x85],
      [CHR 0xE2, CHR 0x80, CHR 0x86], [CHR 0xE2, CHR 0x80, CHR 0x87],
      [CHR 0xE2, CHR 0x80, CHR 0x88], [CHR 0xE2, CHR 0x80, CHR 0x89],
      [CHR 0xE2, CHR 0x80, CHR 0x8A],
      [CHR 0xE2, CHR 0x80, CHR 0xA8], [CHR 0xE2, CHR 0x80, CHR 0xA9],
      [CHR 0xE2, CHR 0x80, CHR 0xAF],
      [CHR 0xE2, CHR 0x81, CHR 0x9F],
      [CHR 0xE3, CHR 0x80, CHR 0x80]]"

definition HasPrefix :: "string \<Rightarrow> string \<Rightarrow> bool" where
  "HasPrefix s prefix \<longleftrightarrow> take (length prefix) s = prefix"

definition HasSuffix :: "string \<Rightarrow> string \<Rightarrow> bool" where
  "HasSuffix s suffix \<longleftrightarrow> length suffix \<le> length s \<and> drop (length s - length suffix) s = suffix"

text \<open>The width in bytes of the white-space rune at the start (at the end) of a string; 0
  when there is none.\<close>

definition space_len :: "string \<Rightarrow> nat" where
  "space_len s = (case find (HasPrefix s) space_encodings of None \<Rightarrow> 0 | Some e \<Rightarrow> length e)"

definition space_len_end :: "string \<Rightarrow> nat" where
  "space_len_end s = (case find (HasSuffix s) space_encodings of None \<Rightarrow> 0 | Some e \<Rightarrow> length e)"

definition is_cont :: "char \<Rightarrow> bool" where
  "is_cont c \<longleftrightarrow> 128 \<le> (of_char c :: nat) \<and> (of_char c :: nat) < 192"

lemma find_enc_Some:
  "find P space_encodings = Some e \<Longrightarrow> e \<in> set space_encodings \<and> P e"
  by (metis find_Some_iff nth_mem)

lemma space_len_le: "space_len s \<le> length s"
proof (cases "find (HasPrefix s) space_encodings")
  case None
  then show ?thesis by (simp add: space_len_def)
next
  case (Some e)
  then have "take (length e) s = e" using find_enc_Some [OF Some] by (simp add: HasPrefix_def)
  then have "length (take (length e) s) = length e" by simp
  then have "length e \<le> length s" by simp
  then show ?thesis using Some by (simp add: space_len_def)
qed

lemma space_len_end_le: "space_len_end s \<le> length s"
proof (cases "find (HasSuffix s) space_encodings")
  case None
  then show ?thesis by (simp add: space_len_end_def)
next
  case (Some e)
  then have "length e \<le> length s" using find_enc_Some [OF Some] by (simp add: HasSuffix_def)
  then show ?thesis using Some by (simp add: space_len_end_def)
qed

text \<open>\<open>strings.TrimSpace\<close>: the string without its leading and trailing white space.\<close>

function TrimLeft :: "string \<Rightarrow> string" where
  "TrimLeft s = (if 0 < space_len s then TrimLeft (drop (space_len s) s) else s)"
  by pat_completeness auto
termination
proof (relation "measure length")
  show "wf (measure length)" by simp
next
  fix s :: string
  assume "0 < space_len s"
  then show "(drop (space_len s) s, s) \<in> measure length"
    using space_len_le [of s] by simp
qed

function TrimRight :: "string \<Rightarrow> string" where
  "TrimRight s =
     (if 0 < space_len_end s then TrimRight (take (length s - space_len_end s) s) else s)"
  by pat_completeness auto
termination
proof (relation "measure length")
  show "wf (measure length)" by simp
next
  fix s :: string
  assume "0 < space_len_end s"
  then show "(take (length s - space_len_end s) s, s) \<in> measure length"
    using space_len_end_le [of s] by simp
qed

declare TrimLeft.simps [simp del] TrimRight.simps [simp del]

definition TrimSpace :: "string \<Rightarrow> string" where
  "TrimSpace s = TrimRight (TrimLeft s)"

text \<open>\<open>strings.Split(s, "\n")\<close>: one more piece than there are line feeds.\<close>

fun Split_lines :: "string \<Rightarrow> string list" where
  "Split_lines [] = [[]]"
| "Split_lines (c # cs) =
     (if c = CHR 0x0A then [] # Split_lines cs
      else (case Split_lines cs of l # ls \<Rightarrow> (c # l) # ls | [] \<Rightarrow> [[c]]))"

text \<open>\<open>strings.Fields\<close>: the maximal runs of bytes between white-space runes.
  \<open>span_field\<close> cuts a string at its first white-space rune.\<close>

fun span_field :: "string \<Rightarrow> string \<times> string" where
  "span_field [] = ([], [])"
| "span_field (c # cs) =
     (if 0 < space_len (c # cs) then ([], c # cs)
      else (let (f, r) = span_field cs in (c # f, r)))"

lemma span_field_length: "length (snd (span_field s)) \<le> length s"
  by (induction s) (auto simp: Let_def split: prod.splits)

lemma TrimLeft_length: "length (TrimLeft s) \<le> length s"
proof (induction s rule: TrimLeft.induct)
  case (1 s)
  show ?case
  proof (cases "0 < space_len s")
    case True
    then show ?thesis using 1 [OF True] by (subst TrimLeft.simps) simp
  next
    case False
    then show ?thesis by (subst TrimLeft.simps) simp
  qed
qed

lemma TrimLeft_space_len: "space_len (TrimLeft s) = 0"
proof (induction s rule: TrimLeft.induct)
  case (1 s)
  show ?case
  proof (cases "0 < space_len s")
    case True
    then show ?thesis using 1 [OF True] by (subst TrimLeft.simps) simp
  next
    case False
    then show ?thesis by (subst TrimLeft.simps) simp
  qed
qed

function Fields :: "string \<Rightarrow> string list" where
  "Fields s =
     (case TrimLeft s of
        [] \<Rightarrow> []
      | c # cs \<Rightarrow> fst (span_field (c # cs)) # Fields (snd (span_field (c # cs))))"
  by pat_completeness auto
termination
proof (relation "measure length")
  show "wf (measure length)" by simp
next
  fix s :: string and c cs
  assume t: "TrimLeft s = c # cs"
  have "space_len (c # cs) = 0" using TrimLeft_space_len [of s] t by simp
  then have "snd (span_field (c # cs)) = snd (span_field cs)"
    by (simp add: Let_def split: prod.splits)
  then have "length (snd (span_field (c # cs))) \<le> length cs"
    using span_field_length [of cs] by simp
  moreover have "length (c # cs) \<le> length s" using TrimLeft_length [of s] t by simp
  ultimately show "(snd (span_field (c # cs)), s) \<in> measure length" by simp
qed

declare Fields.simps [simp del]

text \<open>
  \<open>strconv.Atoi\<close>: an optional sign, then one or more decimal digits, and a value
  within the 64-bit \<open>int\<close>; anything else is an error (\<open>None\<close>).
\<close>

definition is_digit :: "char \<Rightarrow> bool" where
  "is_digit c \<longleftrightarrow> 48 \<le> (of_char c :: nat) \<and> (of_char c :: nat) \<le> 57"

definition digits_val :: "string \<Rightarrow> nat" where
  "digits_val ds = foldl (\<lambda>n c. n * 10 + (of_char c - 48)) 0 ds"

definition Atoi :: "string \<Rightarrow> int option" where
  "Atoi s =
     (let neg = (take 1 s = ''-'');
          ds = (if take 1 s = ''-'' \<or> take 1 s = ''+'' then drop 1 s else s)
      in if ds = [] \<or> \<not> list_all is_digit ds then None
         else (let v = (if neg then - int (digits_val ds) else int (digits_val ds))
               in if - (2 ^ 63) \<le> v \<and> v \<le> 2 ^ 63 - 1 then Some v else None))"

section \<open>Fast-scan adapter (main.go, lines 582-706)\<close>

text \<open>The body of the parsing loop (lines 653-674) for one line of masscan's output:
  the host and the port record the line contributes, if any.\<close>

definition parse_line :: "string \<Rightarrow> (string \<times> PortInfo) option" where
  "parse_line raw =
     (let line = TrimSpace raw in
      if line \<noteq> [] \<and> \<not> HasPrefix line ''#'' then
        (let parts = Fields line in
         if 4 \<le> length parts \<and> parts ! 0 = ''open'' \<and> parts ! 1 = ''tcp'' then
           (case Atoi (parts ! 2) of
              Some port \<Rightarrow> Some (parts ! 3, open_port port)
            | None \<Rightarrow> None)
         else None)
      else None)"

text \<open>\<open>masscanResults[host] = append(masscanResults[host], ...)\<close> (lines 662-669).\<close>

definition add_result ::
  "(string \<rightharpoonup> PortInfo list) \<Rightarrow> string \<Rightarrow> PortInfo \<Rightarrow> (string \<rightharpoonup> PortInfo list)" where
  "add_result m host pt = m(host \<mapsto> (case m host of None \<Rightarrow> [] | Some pts \<Rightarrow> pts) @ [pt])"

definition parse_lines :: "string list \<Rightarrow> (string \<rightharpoonup> PortInfo list) \<Rightarrow> (string \<rightharpoonup> PortInfo list)" where
  "parse_lines lines m =
     fold (\<lambda>raw m. case parse_line raw of None \<Rightarrow> m | Some (host, pt) \<Rightarrow> add_result m host pt)
          lines m"

definition parse_masscan :: "string \<Rightarrow> (string \<rightharpoonup> PortInfo list)" where
  "parse_masscan output = parse_lines (Split_lines (TrimSpace output)) Map.empty"

text \<open>The port records that a sequence of lines contributes for one host, in line order.\<close>

definition contributions :: "string \<Rightarrow> string list \<Rightarrow> PortInfo list" where
  "contributions host lines =
     map snd (filter (\<lambda>hp. fst hp = host) (List.map_filter parse_line lines))"

text \<open>The conversion at lines 598-605 and 639-646: the stored hosts with at least one
  port, keyed by identifier (a later record with the same identifier overwrites).\<close>

definition read_back :: "ScanResults \<Rightarrow> (string \<rightharpoonup> PortInfo list)" where
  "read_back res =
     fold (\<lambda>h m. if Ports h \<noteq> [] then m(Host h \<mapsto> Ports h) else m) (Hosts res) Map.empty"

definition PortScan_fallback ::
  "(string \<Rightarrow> int \<Rightarrow> bool) \<Rightarrow> (string \<Rightarrow> nat list) \<Rightarrow> nat list \<Rightarrow> PDive2 \<Rightarrow> string list
     \<Rightarrow> (string \<rightharpoonup> PortInfo list) \<times> PDive2" where
  "PortScan_fallback dial orders horder p hosts =
     (let res = PortScan dial orders horder (Threads p) hosts (Results p)
      in (read_back res, p\<lparr>Results := res\<rparr>))"

text \<open>The body of the merge loop (lines 682-701) for one host.\<close>

definition merge_host :: "(string \<rightharpoonup> PortInfo list) \<Rightarrow> string \<Rightarrow> ScanResults \<Rightarrow> ScanResults" where
  "merge_host results host res =
     (let (hs, hostIndex) =
            (case findHost (Hosts res) host of
               Some i \<Rightarrow> (Hosts res, i)
             | None \<Rightarrow> (Hosts res @ [up_host host], length (Hosts res)))
      in case results host of
           Some ports \<Rightarrow>
             res\<lparr>Hosts := hs[hostIndex := (hs ! hostIndex)\<lparr>Ports := Ports (hs ! hostIndex) @ ports\<rparr>]\<rparr>
         | None \<Rightarrow> res\<lparr>Hosts := hs\<rparr>)"

definition masscan_merge ::
  "(string \<rightharpoonup> PortInfo list) \<Rightarrow> string list \<Rightarrow> ScanResults \<Rightarrow> ScanResults" where
  "masscan_merge results hosts res = fold (merge_host results) hosts res"

text \<open>
  \<open>MasscanScan\<close>. \<open>lookPath name\<close> says whether \<open>exec.LookPath\<close> finds the binary,
  \<open>createTemp\<close> whether \<open>os.CreateTemp\<close> succeeds, and \<open>run_masscan hosts\<close> is the
  standard output of masscan on the host file (\<open>None\<close> when \<open>cmd.Output\<close> returns an
  error). The result is the returned mapping, the scanner with its updated store, and the
  external commands that were run.
\<close>

definition MasscanScan ::
  "(string \<Rightarrow> bool) \<Rightarrow> bool \<Rightarrow> (string list \<Rightarrow> string option) \<Rightarrow> (string \<Rightarrow> int \<Rightarrow> bool)
     \<Rightarrow> (string \<Rightarrow> nat list) \<Rightarrow> nat list \<Rightarrow> PDive2 \<Rightarrow> string list
     \<Rightarrow> (string \<rightharpoonup> PortInfo list) \<times> PDive2 \<times> string list" where
  "MasscanScan lookPath createTemp run_masscan dial orders horder p hosts =
     (if hosts = [] then (Map.empty, p, [])
      else if \<not> lookPath ''masscan'' then
        (let (results, p') = PortScan_fallback dial orders horder p hosts in (results, p', []))
      else if \<not> createTemp then (Map.empty, p, [])
      else (case run_masscan hosts of
              None \<Rightarrow>
                (let (results, p') = PortScan_fallback dial orders horder p hosts
                 in (results, p', [''masscan'']))
            | Some output \<Rightarrow>
                (let masscanResults = parse_masscan output
                 in (masscanResults,
                     p\<lparr>Results := masscan_merge masscanResults hosts (Results p)\<rparr>,
                     [''masscan'']))))"

lemma enc_shape:
  "e \<in> set space_encodings \<Longrightarrow> e \<noteq> [] \<and> \<not> is_cont (hd e) \<and> (\<forall>c \<in> set (tl e). is_cont c)
     \<and> length e = (if (of_char (hd e) :: nat) < 128 then 1 else if hd e = CHR 0xC2 then 2 else 3)"
  unfolding space_encodings_def is_cont_def by auto


lemma enc_prefix_unique:
  assumes "e \<in> set space_encodings" "e' \<in> set space_encodings" "HasPrefix (e @ s) e'"
  shows "e' = e"
proof -
  have ne: "e \<noteq> []" "e' \<noteq> []" using assms enc_shape by auto
  have t: "take (length e') (e @ s) = e'" using assms(3) by (simp add: HasPrefix_def)
  have "hd (take (length e') (e @ s)) = hd e" using ne by (cases e; cases e') auto
  then have "hd e' = hd e" using t by simp
  then have "length e' = length e" using enc_shape [OF assms(1)] enc_shape [OF assms(2)] by simp
  then show ?thesis using t by simp
qed

lemma space_len_enc:
  assumes "e \<in> set space_encodings"
  shows "space_len (e @ s) = length e"
proof (cases "find (HasPrefix (e @ s)) space_encodings")
  case None
  then have "\<not> HasPrefix (e @ s) e" using assms by (auto simp: find_None_iff)
  then show ?thesis by (simp add: HasPrefix_def)
next
  case (Some e')
  from find_enc_Some [OF Some] have "e' = e" using enc_prefix_unique [OF assms] by blast
  then show ?thesis using Some by (simp add: space_len_def)
qed

lemma space_len_pos:
  assumes "0 < space_len s"
  shows "\<exists>e \<in> set space_encodings. s = e @ drop (space_len s) s \<and> space_len s = length e"
proof (cases "find (HasPrefix s) space_encodings")
  case None
  then show ?thesis using assms by (simp add: space_len_def)
next
  case (Some e)
  from find_enc_Some [OF Some] have e: "e \<in> set space_encodings" "take (length e) s = e"
    by (simp_all add: HasPrefix_def)
  have "space_len s = length e" using Some by (simp add: space_len_def)
  moreover have "s = e @ drop (length e) s" using e(2) by (metis append_take_drop_id)
  ultimately show ?thesis using e(1) by auto
qed

lemma space_len_nocont: "0 < space_len s \<Longrightarrow> s \<noteq> [] \<and> \<not> is_cont (hd s)"
proof -
  assume "0 < space_len s"
  from space_len_pos [OF this] obtain e where e: "e \<in> set space_encodings" "s = e @ drop (space_len s) s"
    by blast
  have "e \<noteq> [] \<and> \<not> is_cont (hd e)" using enc_shape [OF e(1)] by simp
  then show ?thesis using e(2) by (metis append_is_Nil_conv hd_append2)
qed

text \<open>No encoding straddles the boundary before a byte that is not a continuation byte.\<close>

lemma HasPrefix_append:
  assumes "u \<noteq> []" "w = [] \<or> \<not> is_cont (hd w)" "e \<in> set space_encodings"
  shows "HasPrefix (u @ w) e \<longleftrightarrow> HasPrefix u e"
proof
  assume "HasPrefix u e"
  then have t: "take (length e) u = e" by (simp add: HasPrefix_def)
  then have "length (take (length e) u) = length e" by simp
  then have "length e \<le> length u" by simp
  then show "HasPrefix (u @ w) e" using t by (simp add: HasPrefix_def)
next
  assume "HasPrefix (u @ w) e"
  then have t: "take (length e) (u @ w) = e" by (simp add: HasPrefix_def)
  show "HasPrefix u e"
  proof (cases "length e \<le> length u")
    case True
    then show ?thesis using t by (simp add: HasPrefix_def)
  next
    case False
    then have l: "length u < length e" by simp
    have e: "e = u @ take (length e - length u) w" using t l by simp
    have wne: "take (length e - length u) w \<noteq> []"
    proof
      assume a: "take (length e - length u) w = []"
      from e have "e = u" unfolding a by simp
      then show False using l by simp
    qed
    then have w: "w \<noteq> []" by auto
    have "hd w \<in> set (take (length e - length u) w)" using wne w by (cases w) (auto simp: take_Cons')
    moreover obtain a us where u: "u = a # us" using assms(1) by (cases u) auto
    have "tl e = us @ take (length e - length u) w" by (subst e) (simp add: u)
    ultimately have "hd w \<in> set (tl e)" by simp
    then have "is_cont (hd w)" using enc_shape [OF assms(3)] by blast
    then show ?thesis using assms(2) w by simp
  qed
qed

lemma space_len_append:
  assumes "u \<noteq> []" "w = [] \<or> \<not> is_cont (hd w)"
  shows "space_len (u @ w) = space_len u"
proof -
  have "find (HasPrefix (u @ w)) space_encodings = find (HasPrefix u) space_encodings"
    by (rule find_cong) (simp_all add: HasPrefix_append [OF assms])
  then show ?thesis by (simp add: space_len_def)
qed

lemma TrimLeft_pos: "0 < space_len s \<Longrightarrow> TrimLeft s = TrimLeft (drop (space_len s) s)"
  by (subst TrimLeft.simps) simp

lemma TrimLeft_zero: "space_len s = 0 \<Longrightarrow> TrimLeft s = s"
  by (subst TrimLeft.simps) simp

lemma space_len_Nil: "space_len [] = 0"
  using space_len_le [of "[]"] by simp

lemma TrimLeft_Nil: "TrimLeft [] = []"
  by (simp add: TrimLeft_zero space_len_Nil)

lemma TrimLeft_idem: "TrimLeft (TrimLeft s) = TrimLeft s"
  by (simp add: TrimLeft_zero TrimLeft_space_len)

lemma Fields_Nil: "TrimLeft s = [] \<Longrightarrow> Fields s = []"
  by (subst Fields.simps) (simp only: list.case)

lemma Fields_Cons:
  "TrimLeft s = c # cs \<Longrightarrow>
     Fields s = fst (span_field (c # cs)) # Fields (snd (span_field (c # cs)))"
  by (subst Fields.simps) (simp only: list.case)

lemma Fields_TrimLeft: "Fields (TrimLeft s) = Fields s"
proof (cases "TrimLeft s")
  case Nil
  then show ?thesis by (simp add: Fields_Nil TrimLeft_Nil)
next
  case (Cons c cs)
  have "TrimLeft (TrimLeft s) = c # cs" using Cons TrimLeft_idem [of s] by simp
  then show ?thesis by (simp only: Fields_Cons [OF Cons] Fields_Cons [of "TrimLeft s" c cs])
qed

definition starts_rune :: "string \<Rightarrow> bool" where
  "starts_rune w \<longleftrightarrow> w = [] \<or> \<not> is_cont (hd w)"

lemma TrimLeft_append:
  assumes "starts_rune w"
  shows "TrimLeft (u @ w) = (if TrimLeft u = [] then TrimLeft w else TrimLeft u @ w)"
proof (induction u rule: TrimLeft.induct)
  case (1 u)
  show ?case
  proof (cases "u = []")
    case True
    then show ?thesis by (simp add: TrimLeft_Nil)
  next
    case False
    then have sl: "space_len (u @ w) = space_len u"
      using assms by (simp add: space_len_append starts_rune_def)
    show ?thesis
    proof (cases "0 < space_len u")
      case True
      have "drop (space_len u) (u @ w) = drop (space_len u) u @ w"
        using space_len_le [of u] by simp
      then show ?thesis
        using 1 [OF True] True sl by (simp add: TrimLeft_pos)
    next
      case F: False
      then show ?thesis using sl False by (simp add: TrimLeft_zero)
    qed
  qed
qed

lemma span_field_append:
  assumes "starts_rune w" "w = [] \<or> 0 < space_len w"
  shows "span_field (t @ w) = (fst (span_field t), snd (span_field t) @ w)"
proof (induction t)
  case Nil
  show ?case using assms(2) by (cases w) auto
next
  case (Cons c cs)
  have "space_len ((c # cs) @ w) = space_len (c # cs)"
    using assms(1) by (intro space_len_append) (simp_all add: starts_rune_def)
  then show ?case using Cons by (simp add: Let_def split: prod.splits)
qed

lemma blank_starts_rune: "TrimLeft w = [] \<Longrightarrow> starts_rune w \<and> (w = [] \<or> 0 < space_len w)"
proof (cases "0 < space_len w")
  case True
  then show ?thesis using space_len_nocont [OF True] by (simp add: starts_rune_def)
next
  case False
  assume "TrimLeft w = []"
  then show ?thesis using False by (simp add: TrimLeft_zero starts_rune_def)
qed

lemma Fields_append_blank:
  assumes "TrimLeft w = []"
  shows "Fields (u @ w) = Fields u"
proof (induction u rule: Fields.induct)
  case (1 u)
  note w = blank_starts_rune [OF assms]
  show ?case
  proof (cases "TrimLeft u")
    case Nil
    then have "TrimLeft (u @ w) = []" using w assms by (simp add: TrimLeft_append)
    then show ?thesis using Nil by (simp add: Fields_Nil)
  next
    case (Cons c cs)
    then have t: "TrimLeft (u @ w) = c # (cs @ w)" using w by (simp add: TrimLeft_append)
    have sp: "span_field (c # (cs @ w)) = (fst (span_field (c # cs)), snd (span_field (c # cs)) @ w)"
      using span_field_append [of w "c # cs"] w by simp
    show ?thesis
      using 1 [OF Cons] by (simp only: Fields_Cons [OF t] Fields_Cons [OF Cons] sp fst_conv snd_conv)
  qed
qed

lemma find_enc_suffix:
  assumes "0 < space_len_end s"
  shows "\<exists>e \<in> set space_encodings. s = take (length s - space_len_end s) s @ e"
proof (cases "find (HasSuffix s) space_encodings")
  case None
  then show ?thesis using assms by (simp add: space_len_end_def)
next
  case (Some e)
  from find_enc_Some [OF Some] have e: "e \<in> set space_encodings"
    "drop (length s - length e) s = e" by (simp_all add: HasSuffix_def)
  have "space_len_end s = length e" using Some by (simp add: space_len_end_def)
  then show ?thesis using e by (metis append_take_drop_id)
qed

lemma TrimLeft_enc: "e \<in> set space_encodings \<Longrightarrow> TrimLeft e = []"
  using space_len_enc [of e "[]"] enc_shape [of e] by (simp add: TrimLeft_pos TrimLeft_Nil)

lemma TrimRight_decomp: "\<exists>w. s = TrimRight s @ w \<and> TrimLeft w = []"
proof (induction s rule: TrimRight.induct)
  case (1 s)
  show ?case
  proof (cases "0 < space_len_end s")
    case True
    from find_enc_suffix [OF True] obtain e where e: "e \<in> set space_encodings"
      "s = take (length s - space_len_end s) s @ e" by blast
    from 1 [OF True] obtain w where w:
      "take (length s - space_len_end s) s = TrimRight (take (length s - space_len_end s) s) @ w"
      "TrimLeft w = []" by blast
    have tr: "TrimRight s = TrimRight (take (length s - space_len_end s) s)"
      using True by (subst TrimRight.simps) simp
    have "starts_rune e" using enc_shape [OF e(1)] by (simp add: starts_rune_def)
    then have "TrimLeft (w @ e) = []" using w(2) TrimLeft_enc [OF e(1)] by (simp add: TrimLeft_append)
    moreover have "s = TrimRight s @ (w @ e)" using e(2) w(1) tr by (metis append.assoc)
    ultimately show ?thesis by blast
  next
    case False
    then have "TrimRight s = s" by (subst TrimRight.simps) simp
    then show ?thesis by (simp add: TrimLeft_Nil)
  qed
qed

lemma Fields_TrimRight: "Fields (TrimRight s) = Fields s"
  using TrimRight_decomp [of s] Fields_append_blank by metis

lemma Fields_TrimSpace: "Fields (TrimSpace s) = Fields s"
  by (simp add: TrimSpace_def Fields_TrimRight Fields_TrimLeft)

lemma Fields_empty: "Fields [] = []"
  by (simp add: Fields_Nil TrimLeft_Nil)

text \<open>A string that begins with a byte that starts no white space begins its first field
  with that byte.\<close>

lemma Fields_first:
  assumes "space_len (c # cs) = 0"
  shows "\<exists>f fs. Fields (c # cs) = (c # f) # fs"
proof -
  have "TrimLeft (c # cs) = c # cs" using assms by (simp add: TrimLeft_zero)
  from Fields_Cons [OF this] show ?thesis using assms by (simp add: Let_def split: prod.splits)
qed

lemma space_len_hash: "space_len (CHR ''#'' # cs) = 0"
  by (simp add: space_len_def space_encodings_def HasPrefix_def)

text \<open>Evaluation of the two widths on a literal: by its first (last) byte, when that byte
  starts (ends) no multi-byte white space.\<close>

lemma space_len_plain:
  "c \<notin> {CHR 0x09, CHR 0x0A, CHR 0x0B, CHR 0x0C, CHR 0x0D, CHR 0x20, CHR 0xC2, CHR 0xE1, CHR 0xE2, CHR 0xE3}
     \<Longrightarrow> space_len (c # cs) = 0"
  by (simp add: space_len_def space_encodings_def HasPrefix_def)

lemma space_len_ascii:
  "space_len (CHR 0x09 # cs) = 1" "space_len (CHR 0x0A # cs) = 1" "space_len (CHR 0x0B # cs) = 1"
  "space_len (CHR 0x0C # cs) = 1" "space_len (CHR 0x0D # cs) = 1" "space_len (CHR 0x20 # cs) = 1"
  by (simp_all add: space_len_def space_encodings_def HasPrefix_def)

lemma space_len_end_plain:
  assumes "s \<noteq> []"
    "last s \<notin> {CHR 0x09, CHR 0x0A, CHR 0x0B, CHR 0x0C, CHR 0x0D, CHR 0x20, CHR 0x85, CHR 0xA0,
                CHR 0x80, CHR 0x81, CHR 0x82, CHR 0x83, CHR 0x84, CHR 0x86, CHR 0x87, CHR 0x88,
                CHR 0x89, CHR 0x8A, CHR 0xA8, CHR 0xA9, CHR 0xAF, CHR 0x9F}"
  shows "space_len_end s = 0"
proof -
  have "\<not> HasSuffix s e" if "e \<in> set space_encodings" for e
  proof
    assume h: "HasSuffix s e"
    then have "drop (length s - length e) s = e" by (simp add: HasSuffix_def)
    moreover have "e \<noteq> []" using that enc_shape by blast
    ultimately have "last s = last e" by (metis last_drop drop_eq_Nil not_le)
    moreover have "last e \<in> {CHR 0x09, CHR 0x0A, CHR 0x0B, CHR 0x0C, CHR 0x0D, CHR 0x20, CHR 0x85, CHR 0xA0,
                CHR 0x80, CHR 0x81, CHR 0x82, CHR 0x83, CHR 0x84, CHR 0x86, CHR 0x87, CHR 0x88,
                CHR 0x89, CHR 0x8A, CHR 0xA8, CHR 0xA9, CHR 0xAF, CHR 0x9F}"
      using that unfolding space_encodings_def by auto
    ultimately show False using assms(2) by simp
  qed
  then have "find (HasSuffix s) space_encodings = None" by (simp add: find_None_iff)
  then show ?thesis by (simp add: space_len_end_def)
qed

lemma space_len_end_ascii:
  assumes "s \<noteq> []"
    "last s \<in> {CHR 0x09, CHR 0x0A, CHR 0x0B, CHR 0x0C, CHR 0x0D, CHR 0x20}"
  shows "space_len_end s = 1"
proof -
  have "HasSuffix s [last s]"
    using assms(1) by (cases s rule: rev_cases) (simp_all add: HasSuffix_def)
  moreover have "[last s] \<in> set space_encodings"
    using assms(2) by (auto simp: space_encodings_def)
  ultimately have "find (HasSuffix s) space_encodings \<noteq> None"
    by (auto simp: find_None_iff)
  then obtain e where e: "find (HasSuffix s) space_encodings = Some e" by auto
  from find_enc_Some [OF e] have m: "e \<in> set space_encodings" and h: "HasSuffix s e" by simp_all
  have "drop (length s - length e) s = e" using h by (simp add: HasSuffix_def)
  moreover have "e \<noteq> []" using m enc_shape by blast
  ultimately have "last e = last s" by (metis last_drop drop_eq_Nil not_le)
  then have "last e \<in> {CHR 0x09, CHR 0x0A, CHR 0x0B, CHR 0x0C, CHR 0x0D, CHR 0x20}"
    using assms(2) by simp
  then have "length e = 1" using m unfolding space_encodings_def by auto
  then show ?thesis using e by (simp add: space_len_end_def)
qed

lemmas space_fast = Fields.simps TrimLeft.simps TrimRight.simps TrimSpace_def space_len_plain
  space_len_ascii space_len_end_plain space_len_end_ascii space_len_Nil

text \<open>Examples: runs of ASCII white space, U+3000 between two fields, a truncated
  encoding and an isolated byte \<open>0x85\<close> (neither is white space), and trimming on both
  sides, where a stray continuation byte at the end stops the trimming.\<close>

lemma white_space_examples:
  "Fields ''  a  b '' = [''a'', ''b'']"
  "Fields (''a'' @ [CHR 0xE3, CHR 0x80, CHR 0x80] @ ''b'') = [''a'', ''b'']"
  "Fields (''a'' @ [CHR 0xE2, CHR 0x80] @ ''b'') = [''a'' @ [CHR 0xE2, CHR 0x80] @ ''b'']"
  "Fields (''a'' @ [CHR 0x85] @ ''b'' @ [CHR 0xC2, CHR 0x85] @ ''c'') = [''a'' @ [CHR 0x85] @ ''b'', ''c'']"
  "TrimSpace ([CHR 0xC2, CHR 0xA0] @ '' a '' @ [CHR 0xE2, CHR 0x80, CHR 0x80, CHR 0x0D, CHR 0x0A]) = ''a''"
  "TrimSpace (''a'' @ [CHR 0xE2, CHR 0x80, CHR 0x80, CHR 0x80]) = ''a'' @ [CHR 0xE2, CHR 0x80, CHR 0x80, CHR 0x80]"
  by (simp_all add: Fields.simps TrimLeft.simps TrimRight.simps TrimSpace_def space_len_def
      space_len_end_def space_encodings_def HasPrefix_def HasSuffix_def)

lemma parse_line_iff:
  "parse_line raw =
     (if 4 \<le> length (Fields raw) \<and> Fields raw ! 0 = ''open'' \<and> Fields raw ! 1 = ''tcp''
         \<and> Atoi (Fields raw ! 2) \<noteq> None
      then Some (Fields raw ! 3, open_port (the (Atoi (Fields raw ! 2))))
      else None)"
proof (cases "4 \<le> length (Fields raw) \<and> Fields raw ! 0 = ''open'' \<and> Fields raw ! 1 = ''tcp''")
  case True
  then obtain fs where f: "Fields (TrimSpace raw) = ''open'' # fs"
    by (cases "Fields raw") (auto simp: Fields_TrimSpace)
  have ne: "TrimSpace raw \<noteq> []"
    using f Fields_empty by auto
  have "\<not> HasPrefix (TrimSpace raw) ''#''"
  proof
    assume "HasPrefix (TrimSpace raw) ''#''"
    then obtain cs where "TrimSpace raw = CHR ''#'' # cs"
      using ne by (cases "TrimSpace raw") (auto simp: HasPrefix_def)
    then show False
      using Fields_first [OF space_len_hash, of cs] f by auto
  qed
  then show ?thesis
    using True ne by (auto simp: parse_line_def Let_def Fields_TrimSpace split: option.splits)
next
  case False
  then show ?thesis
    by (auto simp: parse_line_def Let_def Fields_TrimSpace split: option.splits)
qed

lemma add_result_lookup:
  "add_result m h pt host =
     (if host = h then Some ((case m h of None \<Rightarrow> [] | Some pts \<Rightarrow> pts) @ [pt]) else m host)"
  by (simp add: add_result_def)

lemma contributions_Cons:
  "contributions host (raw # lines) =
     (case parse_line raw of
        None \<Rightarrow> contributions host lines
      | Some hp \<Rightarrow> if fst hp = host then snd hp # contributions host lines
                   else contributions host lines)"
  by (simp add: contributions_def split: option.splits)

lemma parse_lines_Cons:
  "parse_lines (raw # lines) m =
     parse_lines lines (case parse_line raw of None \<Rightarrow> m | Some (h, pt) \<Rightarrow> add_result m h pt)"
  by (simp add: parse_lines_def)

lemma parse_lines_lookup:
  "parse_lines lines m host =
     (if m host = None \<and> contributions host lines = [] then None
      else Some ((case m host of None \<Rightarrow> [] | Some pts \<Rightarrow> pts) @ contributions host lines))"
proof (induction lines arbitrary: m)
  case Nil
  show ?case
    by (simp add: parse_lines_def contributions_def split: option.splits)
next
  case (Cons raw lines)
  show ?case
  proof (cases "parse_line raw")
    case None
    then show ?thesis
      using Cons [of m] by (simp add: parse_lines_Cons contributions_Cons)
  next
    case (Some hp)
    obtain h pt where hp: "hp = (h, pt)" by (cases hp)
    have step: "parse_lines (raw # lines) m = parse_lines lines (add_result m h pt)"
      using Some hp by (simp add: parse_lines_Cons)
    show ?thesis
    proof (cases "h = host")
      case True
      then show ?thesis
        unfolding step Cons [of "add_result m h pt"]
        using Some hp by (simp add: add_result_lookup contributions_Cons split: option.splits)
    next
      case False
      then show ?thesis
        unfolding step Cons [of "add_result m h pt"]
        using Some hp by (simp add: add_result_lookup contributions_Cons)
    qed
  qed
qed

lemma read_back_fold:
  "fold (\<lambda>h m. if Ports h \<noteq> [] then m(Host h \<mapsto> Ports h) else m) hs m host = Some pts \<Longrightarrow>
     m host = Some pts \<or> (\<exists>h \<in> set hs. Host h = host \<and> Ports h = pts \<and> pts \<noteq> [])"
  by (induction hs arbitrary: m) (fastforce split: if_splits)+

lemma read_back_fold_dom:
  "dom (fold (\<lambda>h m. if Ports h \<noteq> [] then m(Host h \<mapsto> Ports h) else m) hs m)
     = dom m \<union> {Host h | h. h \<in> set hs \<and> Ports h \<noteq> []}"
  by (induction hs arbitrary: m) auto

lemma read_back_dom: "dom (read_back res) = {Host h | h. h \<in> set (Hosts res) \<and> Ports h \<noteq> []}"
  by (simp add: read_back_def read_back_fold_dom)

lemma read_back_Some:
  "read_back res host = Some pts \<Longrightarrow> pts \<noteq> [] \<and> (\<exists>h \<in> set (Hosts res). Host h = host \<and> Ports h = pts)"
  using read_back_fold [of "Hosts res" Map.empty host pts] by (auto simp: read_back_def)

text \<open>
  C5. For every byte string, a line of the fast scanner's output contributes to the
  mapping if and only if it has at least four fields (as \<open>strings.Fields\<close> cuts them, at
  ASCII and at Unicode white space), the first is \<open>open\<close>, the second is \<open>tcp\<close> and
  the third is accepted by \<open>strconv.Atoi\<close>; it then contributes an open port with that
  number for the host named by the fourth field. Every other line is skipped: the output
  is cut into lines at line feeds, and the mapping holds,
  for each host, the contributions of the lines in line order, and no host without a
  contribution. With an empty host list the adapter returns the empty mapping, leaves the
  store as it is and runs no external command.
\<close>

theorem masscan_parse_contributes:
  "(parse_line raw \<noteq> None \<longleftrightarrow>
      4 \<le> length (Fields raw) \<and> Fields raw ! 0 = ''open'' \<and> Fields raw ! 1 = ''tcp''
      \<and> Atoi (Fields raw ! 2) \<noteq> None)
   \<and> (4 \<le> length (Fields raw) \<and> Fields raw ! 0 = ''open'' \<and> Fields raw ! 1 = ''tcp''
        \<and> Atoi (Fields raw ! 2) = Some port \<longrightarrow>
      parse_line raw = Some (Fields raw ! 3, \<lparr> Port = port, State = ''open'', Service = [] \<rparr>))
   \<and> parse_masscan stdout host =
       (if contributions host (Split_lines (TrimSpace stdout)) = [] then None
        else Some (contributions host (Split_lines (TrimSpace stdout))))
   \<and> (hosts \<noteq> [] \<and> lookPath ''masscan'' \<and> createTemp \<and> run_masscan hosts = Some stdout \<longrightarrow>
        fst (MasscanScan lookPath createTemp run_masscan dial orders horder p hosts)
          = parse_masscan stdout)
   \<and> MasscanScan lookPath createTemp run_masscan dial orders horder p [] = (Map.empty, p, [])"
proof -
  have a: "parse_line raw \<noteq> None \<longleftrightarrow>
      4 \<le> length (Fields raw) \<and> Fields raw ! 0 = ''open'' \<and> Fields raw ! 1 = ''tcp''
      \<and> Atoi (Fields raw ! 2) \<noteq> None"
    by (simp add: parse_line_iff)
  have b: "4 \<le> length (Fields raw) \<and> Fields raw ! 0 = ''open'' \<and> Fields raw ! 1 = ''tcp''
        \<and> Atoi (Fields raw ! 2) = Some port \<longrightarrow>
      parse_line raw = Some (Fields raw ! 3, \<lparr> Port = port, State = ''open'', Service = [] \<rparr>)"
    by (simp add: parse_line_iff open_port_def)
  have c: "parse_masscan stdout host =
       (if contributions host (Split_lines (TrimSpace stdout)) = [] then None
        else Some (contributions host (Split_lines (TrimSpace stdout))))"
    by (simp add: parse_masscan_def parse_lines_lookup)
  have d: "hosts \<noteq> [] \<and> lookPath ''masscan'' \<and> createTemp \<and> run_masscan hosts = Some stdout \<longrightarrow>
        fst (MasscanScan lookPath createTemp run_masscan dial orders horder p hosts)
          = parse_masscan stdout"
    by (simp add: MasscanScan_def Let_def)
  have e: "MasscanScan lookPath createTemp run_masscan dial orders horder p [] = (Map.empty, p, [])"
    by (simp add: MasscanScan_def)
  show ?thesis using a b c d e by blast
qed

theorem masscan_parse_contributes_witness:
  "parse_line ''open tcp 80 10.0.0.5 1690000001''
     = Some (''10.0.0.5'', \<lparr> Port = 80, State = ''open'', Service = [] \<rparr>)
   \<and> parse_line ''closed tcp 81 10.0.0.5 1690000002'' = None
   \<and> parse_line ''open tcp http 10.0.0.5 1690000003'' = None
   \<and> parse_line ''open tcp 80'' = None
   \<and> parse_line (''open'' @ [CHR 0xC2, CHR 0xA0] @ ''tcp'' @ [CHR 0xE2, CHR 0x80, CHR 0x83]
                   @ ''443 10.0.0.5 1690000004'')
     = Some (''10.0.0.5'', \<lparr> Port = 443, State = ''open'', Service = [] \<rparr>)
   \<and> fst (MasscanScan (\<lambda>name. True) True
            (\<lambda>hosts. Some (''#masscan\<newline>open tcp 80 10.0.0.5 1690000001\<newline>closed tcp 81 10.0.0.5 1690000002\<newline>open tcp http 10.0.0.5 1690000003\<newline>open''
                            @ [CHR 0xC2, CHR 0xA0] @ ''tcp'' @ [CHR 0xE2, CHR 0x80, CHR 0x83]
                            @ ''443 10.0.0.5 1690000004\<newline>open tcp 22 10.0.0.6 1690000005\<newline>''))
            (\<lambda>h port. False) (\<lambda>h. []) [] (NewPDive2 [''10.0.0.0/29''] ''out'' 50 ''active'' 0)
            [''10.0.0.5'', ''10.0.0.6'', ''10.0.0.7'']) ''10.0.0.5''
     = Some [\<lparr> Port = 80, State = ''open'', Service = [] \<rparr>,
             \<lparr> Port = 443, State = ''open'', Service = [] \<rparr>]
   \<and> fst (MasscanScan (\<lambda>name. True) True
            (\<lambda>hosts. Some (''#masscan\<newline>open tcp 80 10.0.0.5 1690000001\<newline>closed tcp 81 10.0.0.5 1690000002\<newline>open tcp http 10.0.0.5 1690000003\<newline>open''
                            @ [CHR 0xC2, CHR 0xA0] @ ''tcp'' @ [CHR 0xE2, CHR 0x80, CHR 0x83]
                            @ ''443 10.0.0.5 1690000004\<newline>open tcp 22 10.0.0.6 1690000005\<newline>''))
            (\<lambda>h port. False) (\<lambda>h. []) [] (NewPDive2 [''10.0.0.0/29''] ''out'' 50 ''active'' 0)
            [''10.0.0.5'', ''10.0.0.6'', ''10.0.0.7'']) ''10.0.0.6''
     = Some [\<lparr> Port = 22, State = ''open'', Service = [] \<rparr>]
   \<and> fst (MasscanScan (\<lambda>name. True) True
            (\<lambda>hosts. Some (''#masscan\<newline>open tcp 80 10.0.0.5 1690000001\<newline>closed tcp 81 10.0.0.5 1690000002\<newline>open tcp http 10.0.0.5 1690000003\<newline>open''
                            @ [CHR 0xC2, CHR 0xA0] @ ''tcp'' @ [CHR 0xE2, CHR 0x80, CHR 0x83]
                            @ ''443 10.0.0.5 1690000004\<newline>open tcp 22 10.0.0.6 1690000005\<newline>''))
            (\<lambda>h port. False) (\<lambda>h. []) [] (NewPDive2 [''10.0.0.0/29''] ''out'' 50 ''active'' 0)
            [''10.0.0.5'', ''10.0.0.6'', ''10.0.0.7'']) ''10.0.0.7''
     = None"
proof -
  let ?l0 = "''#masscan''"
  let ?l1 = "''open tcp 80 10.0.0.5 1690000001''"
  let ?l2 = "''closed tcp 81 10.0.0.5 1690000002''"
  let ?l3 = "''open tcp http 10.0.0.5 1690000003''"
  let ?l4 = "''open'' @ [CHR 0xC2, CHR 0xA0] @ ''tcp'' @ [CHR 0xE2, CHR 0x80, CHR 0x83]
                   @ ''443 10.0.0.5 1690000004''"
  let ?l5 = "''open tcp 22 10.0.0.6 1690000005''"
  let ?out = "''#masscan\<newline>open tcp 80 10.0.0.5 1690000001\<newline>closed tcp 81 10.0.0.5 1690000002\<newline>open tcp http 10.0.0.5 1690000003\<newline>open''
                            @ [CHR 0xC2, CHR 0xA0] @ ''tcp'' @ [CHR 0xE2, CHR 0x80, CHR 0x83]
                            @ ''443 10.0.0.5 1690000004\<newline>open tcp 22 10.0.0.6 1690000005\<newline>''"
  let ?hosts = "[''10.0.0.5'', ''10.0.0.6'', ''10.0.0.7'']"
  have u: "space_len (CHR 0xC2 # CHR 0xA0 # cs) = 2" "space_len (CHR 0xE2 # CHR 0x80 # CHR 0x83 # cs) = 3"
    for cs
    by (simp_all add: space_len_def space_encodings_def HasPrefix_def)
  have f0: "Fields ?l0 = [''#masscan'']"
    by (simp add: space_fast)
  have f1: "Fields ?l1 = [''open'', ''tcp'', ''80'', ''10.0.0.5'', ''1690000001'']"
    by (simp add: space_fast)
  have f2: "Fields ?l2 = [''closed'', ''tcp'', ''81'', ''10.0.0.5'', ''1690000002'']"
    by (simp add: space_fast)
  have f3: "Fields ?l3 = [''open'', ''tcp'', ''http'', ''10.0.0.5'', ''1690000003'']"
    by (simp add: space_fast)
  have f4: "Fields ?l4 = [''open'', ''tcp'', ''443'', ''10.0.0.5'', ''1690000004'']"
    by (simp add: space_fast u)
  have f5: "Fields ?l5 = [''open'', ''tcp'', ''22'', ''10.0.0.6'', ''1690000005'']"
    by (simp add: space_fast)
  have f6: "Fields ''open tcp 80'' = [''open'', ''tcp'', ''80'']"
    by (simp add: space_fast)
  have a: "Atoi ''80'' = Some 80" "Atoi ''http'' = None" "Atoi ''443'' = Some 443"
    "Atoi ''22'' = Some 22"
    by (simp_all add: Atoi_def is_digit_def digits_val_def)
  have l: "Split_lines (TrimSpace ?out) = [?l0, ?l1, ?l2, ?l3, ?l4, ?l5]"
    by (simp add: space_fast)
  note w = masscan_parse_contributes [where stdout = ?out and hosts = ?hosts
      and lookPath = "\<lambda>name. True" and createTemp = True and run_masscan = "\<lambda>hosts. Some ?out"
      and dial = "\<lambda>h port. False" and orders = "\<lambda>h. []" and horder = "[]"
      and p = "NewPDive2 [''10.0.0.0/29''] ''out'' 50 ''active'' 0"]
  have p0: "parse_line ?l0 = None"
    using w [where raw = ?l0 and port = 0 and host = "[]", THEN conjunct1] by (simp add: f0 del: not_None_eq)
  have p1: "parse_line ?l1 = Some (''10.0.0.5'', \<lparr> Port = 80, State = ''open'', Service = [] \<rparr>)"
    using w [where raw = ?l1 and port = 80 and host = "[]", THEN conjunct2, THEN conjunct1]
    by (simp add: f1 a)
  have p2: "parse_line ?l2 = None"
    using w [where raw = ?l2 and port = 0 and host = "[]", THEN conjunct1] by (simp add: f2 del: not_None_eq)
  have p3: "parse_line ?l3 = None"
    using w [where raw = ?l3 and port = 0 and host = "[]", THEN conjunct1] by (simp add: f3 a del: not_None_eq)
  have p4: "parse_line ?l4 = Some (''10.0.0.5'', \<lparr> Port = 443, State = ''open'', Service = [] \<rparr>)"
    using w [where raw = ?l4 and port = 443 and host = "[]", THEN conjunct2, THEN conjunct1]
    by (simp add: f4 [simplified] a)
  have p5: "parse_line ?l5 = Some (''10.0.0.6'', \<lparr> Port = 22, State = ''open'', Service = [] \<rparr>)"
    using w [where raw = ?l5 and port = 22 and host = "[]", THEN conjunct2, THEN conjunct1]
    by (simp add: f5 a)
  have p6: "parse_line ''open tcp 80'' = None"
    using w [where raw = "''open tcp 80''" and port = 0 and host = "[]", THEN conjunct1]
    by (simp add: f6 del: not_None_eq)
  have c: "contributions ''10.0.0.5'' [?l0, ?l1, ?l2, ?l3, ?l4, ?l5]
        = [\<lparr> Port = 80, State = ''open'', Service = [] \<rparr>, \<lparr> Port = 443, State = ''open'', Service = [] \<rparr>]"
    "contributions ''10.0.0.6'' [?l0, ?l1, ?l2, ?l3, ?l4, ?l5]
        = [\<lparr> Port = 22, State = ''open'', Service = [] \<rparr>]"
    "contributions ''10.0.0.7'' [?l0, ?l1, ?l2, ?l3, ?l4, ?l5] = []"
    by (simp_all only: contributions_Cons p0 p1 p2 p3 p4 p5) (simp_all add: contributions_def)
  have ne: "?hosts \<noteq> [] \<and> (\<lambda>name. True) ''masscan'' \<and> True \<and> (\<lambda>hosts. Some ?out) ?hosts = Some ?out"
    by simp
  have m: "fst (MasscanScan (\<lambda>name. True) True (\<lambda>hosts. Some ?out) (\<lambda>h port. False) (\<lambda>h. []) []
      (NewPDive2 [''10.0.0.0/29''] ''out'' 50 ''active'' 0) ?hosts) = parse_masscan ?out"
    using w [where raw = ?l0 and port = 0 and host = "[]", THEN conjunct2, THEN conjunct2,
        THEN conjunct2, THEN conjunct1] ne by blast
  have r5: "parse_masscan ?out ''10.0.0.5''
      = Some [\<lparr> Port = 80, State = ''open'', Service = [] \<rparr>, \<lparr> Port = 443, State = ''open'', Service = [] \<rparr>]"
    unfolding w [where raw = ?l0 and port = 0 and host = "''10.0.0.5''", THEN conjunct2,
        THEN conjunct2, THEN conjunct1] l c by simp
  have r6: "parse_masscan ?out ''10.0.0.6'' = Some [\<lparr> Port = 22, State = ''open'', Service = [] \<rparr>]"
    unfolding w [where raw = ?l0 and port = 0 and host = "''10.0.0.6''", THEN conjunct2,
        THEN conjunct2, THEN conjunct1] l c by simp
  have r7: "parse_masscan ?out ''10.0.0.7'' = None"
    unfolding w [where raw = ?l0 and port = 0 and host = "''10.0.0.7''", THEN conjunct2,
        THEN conjunct2, THEN conjunct1] l c by simp
  show ?thesis
    unfolding m using p1 p2 p3 p6 p4 r5 r6 r7 by (intro conjI)
qed

text \<open>
  C10. On the adapter's fallback path (masscan is not on the path, or its invocation
  fails) the store is the one \<open>PortScan\<close> leaves, and the returned mapping holds exactly
  the identifiers of the stored hosts with at least one port, each with the ports of such
  a record; a scanned host all of whose records ended with no port is absent.
\<close>

theorem MasscanScan_fallback_mapping:
  assumes "hosts \<noteq> []"
    and "\<not> lookPath ''masscan'' \<or> (createTemp \<and> run_masscan hosts = None)"
    and "MasscanScan lookPath createTemp run_masscan dial orders horder p hosts = (results, p', execs)"
  shows "Results p' = PortScan dial orders horder (Threads p) hosts (Results p)
     \<and> dom results = {Host h | h. h \<in> set (Hosts (Results p')) \<and> Ports h \<noteq> []}
     \<and> (\<forall>host pts. results host = Some pts \<longrightarrow>
           pts \<noteq> [] \<and> (\<exists>h \<in> set (Hosts (Results p')). Host h = host \<and> Ports h = pts))
     \<and> (\<forall>host \<in> set hosts.
           (\<forall>h \<in> set (Hosts (Results p')). Host h = host \<longrightarrow> Ports h = []) \<longrightarrow> results host = None)"
proof -
  have r: "results = read_back (Results p')"
    and p': "Results p' = PortScan dial orders horder (Threads p) hosts (Results p)"
    using assms
    by (auto simp: MasscanScan_def PortScan_fallback_def Let_def split: if_splits option.splits)
  have d: "dom results = {Host h | h. h \<in> set (Hosts (Results p')) \<and> Ports h \<noteq> []}"
    unfolding r by (rule read_back_dom)
  have v: "\<forall>host pts. results host = Some pts \<longrightarrow>
           pts \<noteq> [] \<and> (\<exists>h \<in> set (Hosts (Results p')). Host h = host \<and> Ports h = pts)"
    unfolding r using read_back_Some by blast
  have z: "\<forall>host \<in> set hosts.
           (\<forall>h \<in> set (Hosts (Results p')). Host h = host \<longrightarrow> Ports h = []) \<longrightarrow> results host = None"
    using v by (metis not_Some_eq)
  show ?thesis using p' d v z by blast
qed

theorem MasscanScan_fallback_mapping_witness:
  "fst (MasscanScan (\<lambda>name. False) True (\<lambda>hosts. None) (\<lambda>h port. h = ''10.0.0.5'' \<and> port = 22)
          (\<lambda>h. []) []
          ((NewPDive2 [''10.0.0.5'', ''10.0.0.6''] ''out'' 50 ''active'' 0)
             \<lparr>Results := \<lparr> scan_info = \<lparr> info_Targets = [], StartTime = 0,
                                           Scanner = ''PDive2 v2.0'', info_DiscoveryMode = ''active'' \<rparr>,
                            Hosts = [up_host ''10.0.0.5'', up_host ''10.0.0.6''],
                            UnresponsiveHosts = 0 \<rparr>\<rparr>)
          [''10.0.0.5'', ''10.0.0.6'']) ''10.0.0.5'' = Some [open_port 22]
   \<and> fst (MasscanScan (\<lambda>name. False) True (\<lambda>hosts. None) (\<lambda>h port. h = ''10.0.0.5'' \<and> port = 22)
          (\<lambda>h. []) []
          ((NewPDive2 [''10.0.0.5'', ''10.0.0.6''] ''out'' 50 ''active'' 0)
             \<lparr>Results := \<lparr> scan_info = \<lparr> info_Targets = [], StartTime = 0,
                                           Scanner = ''PDive2 v2.0'', info_DiscoveryMode = ''active'' \<rparr>,
                            Hosts = [up_host ''10.0.0.5'', up_host ''10.0.0.6''],
                            UnresponsiveHosts = 0 \<rparr>\<rparr>)
          [''10.0.0.5'', ''10.0.0.6'']) ''10.0.0.6'' = None"
proof -
  let ?p = "(NewPDive2 [''10.0.0.5'', ''10.0.0.6''] ''out'' 50 ''active'' 0)
             \<lparr>Results := \<lparr> scan_info = \<lparr> info_Targets = [], StartTime = 0,
                                           Scanner = ''PDive2 v2.0'', info_DiscoveryMode = ''active'' \<rparr>,
                            Hosts = [up_host ''10.0.0.5'', up_host ''10.0.0.6''],
                            UnresponsiveHosts = 0 \<rparr>\<rparr>"
  let ?M = "MasscanScan (\<lambda>name. False) True (\<lambda>hosts. None) (\<lambda>h port. h = ''10.0.0.5'' \<and> port = 22)
          (\<lambda>h. []) [] ?p [''10.0.0.5'', ''10.0.0.6'']"
  have run: "?M = (fst ?M, fst (snd ?M), snd (snd ?M))" by simp
  have ne: "[''10.0.0.5'', ''10.0.0.6''] \<noteq> []" by simp
  have lp: "\<not> (\<lambda>name. False) ''masscan'' \<or> (True \<and> (\<lambda>hosts. None) [''10.0.0.5'', ''10.0.0.6''] = None)"
    by simp
  show ?thesis
    using MasscanScan_fallback_mapping [OF ne lp run]
    by (simp add: MasscanScan_def PortScan_fallback_def PortScan_def scanHostPorts_def
        workerPool_def commonPorts_def scanPort_def read_back_def up_host_def NewPDive2_def Let_def)
qed

section \<open>Target expansion (main.go, lines 161-204)\<close>

text \<open>\<open>removeDuplicates\<close>: \<open>keys\<close> is the set of strings seen so far.\<close>

fun removeDuplicates_loop :: "string list \<Rightarrow> string set \<Rightarrow> string list \<Rightarrow> string list" where
  "removeDuplicates_loop [] keys result = result"
| "removeDuplicates_loop (item # rest) keys result =
     (if item \<notin> keys then removeDuplicates_loop rest (insert item keys) (result @ [item])
      else removeDuplicates_loop rest keys result)"

definition removeDuplicates :: "string list \<Rightarrow> string list" where
  "removeDuplicates items = removeDuplicates_loop items {} []"

subsection \<open>The \<open>net\<close> package on IPv4\<close>

text \<open>
  An \<open>IP\<close> is a byte slice. The functions of Go's \<open>net\<close> package that
  \<open>expandTargets\<close> calls are modelled for IPv4 text: \<open>ParseCIDR\<close> answers for
  networks written \<open>a.b.c.d/n\<close>, and an IPv6 network is treated as text it cannot
  parse.
\<close>

type_synonym IP = "8 word list"

record IPNet =
  net_IP :: IP
  net_Mask :: IP

definition v4InV6Prefix :: IP where
  "v4InV6Prefix = [0, 0, 0, 0, 0, 0, 0, 0, 0, 0, 0xff, 0xff]"

text \<open>An octet of \<open>netip.ParseAddr\<close>: decimal digits, at least one, no leading zero,
  at most 255.\<close>

definition parse_octet :: "string \<Rightarrow> 8 word option" where
  "parse_octet s =
     (if s = [] \<or> \<not> list_all is_digit s \<or> (1 < length s \<and> hd s = CHR ''0'')
         \<or> 255 < digits_val s
      then None else Some (of_nat (digits_val s)))"

text \<open>The pieces of a string between the occurrences of a separator character.\<close>

fun split_on :: "char \<Rightarrow> string \<Rightarrow> string list" where
  "split_on sep [] = [[]]"
| "split_on sep (c # cs) =
     (if c = sep then [] # split_on sep cs
      else (case split_on sep cs of piece # pieces \<Rightarrow> (c # piece) # pieces | [] \<Rightarrow> [[c]]))"

definition parseIPv4 :: "string \<Rightarrow> IP option" where
  "parseIPv4 s =
     (case map parse_octet (split_on CHR ''.'' s) of
        [Some a, Some b, Some c, Some d] \<Rightarrow> Some [a, b, c, d]
      | _ \<Rightarrow> None)"

text \<open>\<open>net.CIDRMask(ones, 8 * l)\<close>: the loop over the \<open>l\<close> bytes of the mask.\<close>

fun CIDRMask_bytes :: "nat \<Rightarrow> nat \<Rightarrow> IP" where
  "CIDRMask_bytes n 0 = []"
| "CIDRMask_bytes n (Suc l) =
     (if 8 \<le> n then 0xff # CIDRMask_bytes (n - 8) l
      else NOT (drop_bit n 0xff) # CIDRMask_bytes 0 l)"

definition CIDRMask :: "nat \<Rightarrow> nat \<Rightarrow> IP" where
  "CIDRMask ones bits = CIDRMask_bytes ones (bits div 8)"

text \<open>\<open>ip.To4()\<close>, with \<open>None\<close> for \<open>nil\<close>.\<close>

definition To4 :: "IP \<Rightarrow> IP option" where
  "To4 ip =
     (if length ip = 4 then Some ip
      else if length ip = 16 \<and> take 12 ip = v4InV6Prefix then Some (drop 12 ip)
      else None)"

text \<open>\<open>ip.Mask(mask)\<close>, with \<open>[]\<close> for \<open>nil\<close>.\<close>

definition Mask :: "IP \<Rightarrow> IP \<Rightarrow> IP" where
  "Mask ip ipmask =
     (let m' = (if length ipmask = 16 \<and> length ip = 4 \<and> list_all (\<lambda>b. b = 0xff) (take 12 ipmask)
                   then drop 12 ipmask else ipmask);
          ip' = (if length m' = 4 \<and> length ip = 16 \<and> take 12 ip = v4InV6Prefix
                 then drop 12 ip else ip)
      in if length ip' \<noteq> length m' then [] else map2 (AND) ip' m')"

text \<open>The number written after the first \<open>/\<close> of a target.\<close>

definition prefix_length :: "string \<Rightarrow> nat" where
  "prefix_length s = digits_val (drop 1 (dropWhile (\<lambda>c. c \<noteq> CHR ''/'') s))"

text \<open>\<open>net.ParseCIDR\<close>: the address before the first \<open>/\<close>, the prefix length after
  it (decimal digits, at most 32). The address is returned in its 16-byte form, the
  network with a 4-byte number and mask.\<close>

definition ParseCIDR :: "string \<Rightarrow> (IP \<times> IPNet) option" where
  "ParseCIDR s =
     (if CHR ''/'' \<notin> set s then None
      else (let addr = takeWhile (\<lambda>c. c \<noteq> CHR ''/'') s;
                ipmask = drop 1 (dropWhile (\<lambda>c. c \<noteq> CHR ''/'') s)
            in case parseIPv4 addr of
                 None \<Rightarrow> None
               | Some ip4 \<Rightarrow>
                   if ipmask = [] \<or> \<not> list_all is_digit ipmask \<or> 32 < prefix_length s then None
                   else (let m = CIDRMask (prefix_length s) 32; ip = v4InV6Prefix @ ip4
                         in Some (ip, \<lparr> net_IP = Mask ip m, net_Mask = m \<rparr>))))"

text \<open>\<open>ipnet.Contains(ip)\<close>, for a network with a 4-byte number and mask, as
  \<open>ParseCIDR\<close> returns it here: both addresses are brought to 4 bytes where possible,
  and the masked bytes are compared.\<close>

definition Contains :: "IPNet \<Rightarrow> IP \<Rightarrow> bool" where
  "Contains n ip =
     (case To4 (net_IP n) of
        None \<Rightarrow> False
      | Some nn \<Rightarrow>
          (let ip' = (case To4 ip of Some x \<Rightarrow> x | None \<Rightarrow> ip)
           in length ip' = length nn
              \<and> list_all (\<lambda>(a, b, m). a AND m = b AND m) (zip nn (zip ip' (net_Mask n)))))"

text \<open>\<open>ip.String()\<close> of an IPv4 address: dotted decimal. The loop of
  \<open>expandTargets\<close> calls it on 4-byte addresses only; the text of any other slice is
  left open (\<open>''?''\<close>).\<close>

definition IP_String :: "IP \<Rightarrow> string" where
  "IP_String ip =
     (case To4 ip of
        Some [a, b, c, d] \<Rightarrow>
          itoa_nat (unat a) @ ''.'' @ itoa_nat (unat b) @ ''.'' @ itoa_nat (unat c) @ ''.''
            @ itoa_nat (unat d)
      | _ \<Rightarrow> ''?'')"

text \<open>\<open>inc\<close> (lines 182-189), on the bytes from last to first.\<close>

fun inc_rev :: "IP \<Rightarrow> IP" where
  "inc_rev [] = []"
| "inc_rev (b # bs) = (if b + 1 \<noteq> 0 then (b + 1) # bs else (b + 1) # inc_rev bs)"

definition inc :: "IP \<Rightarrow> IP" where
  "inc ip = rev (inc_rev (rev ip))"

text \<open>
  The loop \<open>for ip := ip.Mask(ipnet.Mask); ipnet.Contains(ip); inc(ip)\<close> of line 169.
  It need not terminate; \<open>None\<close> is the loop that runs forever.
\<close>

partial_function (option) expand_loop :: "IPNet \<Rightarrow> IP \<Rightarrow> string list \<Rightarrow> string list option" where
  "expand_loop ipnet ip allHosts =
     (if Contains ipnet ip then expand_loop ipnet (inc ip) (allHosts @ [IP_String ip])
      else Some allHosts)"

text \<open>The loop of \<open>expandTargets\<close> over the targets (lines 165-176).\<close>

fun expand_targets_loop :: "string list \<Rightarrow> string list \<Rightarrow> string list option" where
  "expand_targets_loop [] allHosts = Some allHosts"
| "expand_targets_loop (target # targets) allHosts =
     (if CHR ''/'' \<in> set target then
        (case ParseCIDR target of
           Some (ip, ipnet) \<Rightarrow>
             (case expand_loop ipnet (Mask ip (net_Mask ipnet)) allHosts of
                None \<Rightarrow> None
              | Some allHosts' \<Rightarrow> expand_targets_loop targets allHosts')
         | None \<Rightarrow> expand_targets_loop targets allHosts)
      else expand_targets_loop targets (allHosts @ [target]))"

definition expandTargets :: "PDive2 \<Rightarrow> string list option" where
  "expandTargets p = map_option removeDuplicates (expand_targets_loop (Targets p) [])"


lemma byte_mask_eq: "NOT (drop_bit n (0xff :: 8 word)) = NOT (mask (8 - n))"
proof -
  have m: "(mask 8 :: 8 word) = 0xff" by (simp add: mask_eq_exp_minus_1)
  have "drop_bit n (mask 8 :: 8 word) = mask (8 - n)"
    by (rule bit_eqI) (auto simp: bit_simps)
  then show ?thesis unfolding m by simp
qed

lemma and_not_mask_push: "(a :: 8 word) AND NOT (mask j) = push_bit j (drop_bit j a)"
  by (rule bit_eqI) (auto simp: bit_simps)

lemma unat_and_not_mask:
  "unat ((a :: 8 word) AND NOT (mask j)) = (unat a div 2 ^ j) * 2 ^ j"
proof -
  have le: "(unat a div 2 ^ j) * 2 ^ j \<le> unat a"
    by (rule div_times_less_eq_dividend)
  have "unat a < 2 ^ 8" using unsigned_less [of a] by simp
  with le have lt: "(unat a div 2 ^ j) * 2 ^ j < 2 ^ 8" by linarith
  have "unat (push_bit j (drop_bit j a)) = take_bit 8 (push_bit j (drop_bit j (unat a)))"
    by (simp add: unsigned_push_bit_eq unat_drop_bit_eq)
  also have "\<dots> = (unat a div 2 ^ j) * 2 ^ j"
    using lt by (simp add: take_bit_nat_def push_bit_nat_def drop_bit_nat_def)
  finally show ?thesis by (simp only: and_not_mask_push)
qed

lemma and_byte_mask_eq_iff:
  "(a AND NOT (drop_bit n (0xff :: 8 word))) = (b AND NOT (drop_bit n 0xff))
     \<longleftrightarrow> unat a div 2 ^ (8 - n) = unat b div 2 ^ (8 - n)"
proof -
  have "(a AND NOT (mask (8 - n))) = (b AND NOT (mask (8 - n)))
      \<longleftrightarrow> unat (a AND NOT (mask (8 - n))) = unat (b AND NOT (mask (8 - n)))"
    by (simp add: word_unat_eq_iff)
  also have "\<dots> \<longleftrightarrow> unat a div 2 ^ (8 - n) = unat b div 2 ^ (8 - n)"
    by (simp add: unat_and_not_mask)
  finally show ?thesis by (simp only: byte_mask_eq)
qed

lemma unat_and_byte_mask:
  "unat (a AND NOT (drop_bit n (0xff :: 8 word))) = (unat a div 2 ^ (8 - n)) * 2 ^ (8 - n)"
  by (simp only: byte_mask_eq unat_and_not_mask)

text \<open>The number an address denotes (big-endian), and the 4-byte address of a number.\<close>

fun ip_val :: "IP \<Rightarrow> nat" where
  "ip_val [] = 0"
| "ip_val (b # bs) = unat b * 256 ^ length bs + ip_val bs"

definition ip_of_nat :: "nat \<Rightarrow> IP" where
  "ip_of_nat n = [of_nat (n div 2 ^ 24), of_nat (n div 2 ^ 16), of_nat (n div 2 ^ 8), of_nat n]"

lemma ip_val_less: "ip_val bs < 256 ^ length bs"
proof (induction bs)
  case Nil
  show ?case by simp
next
  case (Cons b bs)
  define P :: nat where "P = 256 ^ length bs"
  have "unat b < 2 ^ 8" using unsigned_less [of b] by simp
  then have "unat b \<le> 255" by simp
  then have "unat b * P \<le> 255 * P" by (rule mult_le_mono1)
  moreover have "ip_val bs < P" using Cons by (simp add: P_def)
  ultimately have "unat b * P + ip_val bs < 256 * P" by linarith
  then show ?case by (simp add: P_def)
qed

lemma split_digits:
  fixes u u' r r' M :: nat
  assumes "r < M" "r' < M"
  shows "u * M + r = u' * M + r' \<longleftrightarrow> u = u' \<and> r = r'"
proof
  assume eq: "u * M + r = u' * M + r'"
  have "(u * M + r) div M = u" "(u' * M + r') div M = u'"
    "(u * M + r) mod M = r" "(u' * M + r') mod M = r'"
    using assms by simp_all
  with eq show "u = u' \<and> r = r'" by metis
qed simp

lemma div_low:
  fixes u v :: nat
  assumes "k \<le> e" "v < 2 ^ e"
  shows "(u * 2 ^ e + v) div 2 ^ k = u * 2 ^ (e - k) + v div 2 ^ k" "v div 2 ^ k < 2 ^ (e - k)"
proof -
  have e: "(2::nat) ^ e = 2 ^ (e - k) * 2 ^ k"
    using assms(1) by (simp add: power_add [symmetric])
  show "(u * 2 ^ e + v) div 2 ^ k = u * 2 ^ (e - k) + v div 2 ^ k"
    unfolding e by (simp add: mult.assoc [symmetric])
  show "v div 2 ^ k < 2 ^ (e - k)"
    using assms(2) unfolding e by (simp add: less_mult_imp_div_less)
qed

lemma div_high:
  fixes u v :: nat
  assumes "v < 2 ^ e"
  shows "(u * 2 ^ e + v) div 2 ^ (e + j) = u div 2 ^ j"
proof -
  have "(u * 2 ^ e + v) div 2 ^ (e + j) = ((u * 2 ^ e + v) div 2 ^ e) div 2 ^ j"
    by (simp add: power_add div_mult2_eq)
  then show ?thesis using assms by simp
qed

lemma pow256: "(256::nat) ^ l = 2 ^ (8 * l)"
  by (simp add: power_mult)

lemma and_ff [simp]: "(x :: 8 word) AND 0xff = x"
proof -
  have "(0xff :: 8 word) = - 1" by simp
  then show ?thesis by (simp only: and.right_neutral)
qed

lemma length_CIDRMask_bytes [simp]: "length (CIDRMask_bytes n l) = l"
  by (induction l arbitrary: n) auto

lemma Contains_bytes:
  "length xs = l \<Longrightarrow> length ys = l \<Longrightarrow> n \<le> 8 * l \<Longrightarrow>
     list_all (\<lambda>(a, b, m). a AND m = b AND m) (zip xs (zip ys (CIDRMask_bytes n l)))
       \<longleftrightarrow> ip_val xs div 2 ^ (8 * l - n) = ip_val ys div 2 ^ (8 * l - n)"
proof (induction l arbitrary: n xs ys)
  case 0
  then show ?case by simp
next
  case (Suc l)
  from Suc.prems obtain x xs' y ys' where xs: "xs = x # xs'" "length xs' = l"
    and ys: "ys = y # ys'" "length ys' = l"
    by (auto simp: length_Suc_conv)
  have vx: "ip_val xs' < 2 ^ (8 * l)" and vy: "ip_val ys' < 2 ^ (8 * l)"
    using ip_val_less [of xs'] ip_val_less [of ys'] xs ys by (simp_all add: pow256)
  show ?case
  proof (cases "8 \<le> n")
    case True
    define k where "k = 8 * l - (n - 8)"
    have k: "8 + 8 * l - n = k" "k \<le> 8 * l"
      using True Suc.prems(3) by (simp_all add: k_def)
    have ih: "list_all (\<lambda>(a, b, m). a AND m = b AND m) (zip xs' (zip ys' (CIDRMask_bytes (n - 8) l)))
       \<longleftrightarrow> ip_val xs' div 2 ^ k = ip_val ys' div 2 ^ k"
      unfolding k_def using Suc.IH [of xs' ys' "n - 8"] xs ys Suc.prems(3) True by simp
    have "ip_val xs div 2 ^ k = ip_val ys div 2 ^ k
        \<longleftrightarrow> unat x = unat y \<and> ip_val xs' div 2 ^ k = ip_val ys' div 2 ^ k"
      using div_low(1) [OF k(2) vx, of "unat x"] div_low(1) [OF k(2) vy, of "unat y"]
        div_low(2) [OF k(2) vx] div_low(2) [OF k(2) vy]
        split_digits [of "ip_val xs' div 2 ^ k" "2 ^ (8 * l - k)" "ip_val ys' div 2 ^ k" "unat x" "unat y"]
      by (simp add: xs ys pow256)
    then show ?thesis
      using True ih by (simp add: xs ys k word_unat_eq_iff)
  next
    case False
    have k: "8 + 8 * l - n = 8 * l + (8 - n)"
      using False by simp
    have z: "list_all (\<lambda>(a, b, m). a AND m = b AND m) (zip xs' (zip ys' (CIDRMask_bytes 0 l)))"
      using Suc.IH [of xs' ys' 0] xs ys vx vy by simp
    have "ip_val xs div 2 ^ (8 * l + (8 - n)) = unat x div 2 ^ (8 - n)"
      "ip_val ys div 2 ^ (8 * l + (8 - n)) = unat y div 2 ^ (8 - n)"
      using div_high [OF vx, of "unat x" "8 - n"] div_high [OF vy, of "unat y" "8 - n"]
      by (simp_all add: xs ys pow256)
    then show ?thesis
      using False z by (simp add: xs ys k and_byte_mask_eq_iff)
  qed
qed

lemma ip_val_Mask_bytes:
  "length xs = l \<Longrightarrow> n \<le> 8 * l \<Longrightarrow>
     ip_val (map2 (AND) xs (CIDRMask_bytes n l)) = (ip_val xs div 2 ^ (8 * l - n)) * 2 ^ (8 * l - n)"
proof (induction l arbitrary: n xs)
  case 0
  then show ?case by simp
next
  case (Suc l)
  from Suc.prems obtain x xs' where xs: "xs = x # xs'" "length xs' = l"
    by (auto simp: length_Suc_conv)
  have vx: "ip_val xs' < 2 ^ (8 * l)"
    using ip_val_less [of xs'] xs by (simp add: pow256)
  show ?case
  proof (cases "8 \<le> n")
    case True
    define k where "k = 8 * l - (n - 8)"
    have k: "8 + 8 * l - n = k" "k \<le> 8 * l"
      using True Suc.prems(2) by (simp_all add: k_def)
    have ih: "ip_val (map2 (AND) xs' (CIDRMask_bytes (n - 8) l)) = (ip_val xs' div 2 ^ k) * 2 ^ k"
      unfolding k_def using Suc.IH [of xs' "n - 8"] xs Suc.prems(2) True by simp
    have e: "(2::nat) ^ (8 * l) = 2 ^ (8 * l - k) * 2 ^ k"
      using k(2) by (simp add: power_add [symmetric])
    have d: "ip_val xs div 2 ^ k = unat x * 2 ^ (8 * l - k) + ip_val xs' div 2 ^ k"
      using div_low(1) [OF k(2) vx, of "unat x"] by (simp add: xs pow256)
    have "(ip_val xs div 2 ^ k) * 2 ^ k
        = (unat x * 2 ^ (8 * l - k)) * 2 ^ k + (ip_val xs' div 2 ^ k) * 2 ^ k"
      by (simp only: d distrib_right)
    also have "(unat x * 2 ^ (8 * l - k)) * 2 ^ k = unat x * 2 ^ (8 * l)"
      by (simp only: mult.assoc e [symmetric])
    finally have "(ip_val xs div 2 ^ k) * 2 ^ k = unat x * 2 ^ (8 * l) + (ip_val xs' div 2 ^ k) * 2 ^ k" .
    then show ?thesis
      using True ih by (simp add: xs k pow256)
  next
    case False
    have k: "8 + 8 * l - n = 8 * l + (8 - n)"
      using False by simp
    have z: "ip_val (map2 (AND) xs' (CIDRMask_bytes 0 l)) = 0"
      using Suc.IH [of xs' 0] xs vx by simp
    have "ip_val xs div 2 ^ (8 * l + (8 - n)) = unat x div 2 ^ (8 - n)"
      using div_high [OF vx, of "unat x" "8 - n"] by (simp add: xs pow256)
    moreover have "8 * l + 8 - n = (8 - n) + 8 * l"
      using False by simp
    then have "(2::nat) ^ (8 * l + 8 - n) = 2 ^ (8 - n) * 2 ^ (8 * l)"
      by (simp only: power_add)
    ultimately show ?thesis
      using False z by (simp add: xs k unat_and_byte_mask pow256)
  qed
qed


text \<open>The little-endian value, for the carry chain of \<open>inc\<close>.\<close>

fun lval :: "IP \<Rightarrow> nat" where
  "lval [] = 0"
| "lval (b # bs) = unat b + 256 * lval bs"

lemma ip_val_snoc: "ip_val (bs @ [b]) = ip_val bs * 256 + unat b"
  by (induction bs) (simp_all add: algebra_simps)

lemma ip_val_rev: "ip_val (rev bs) = lval bs"
  by (induction bs) (simp_all add: ip_val_snoc)

lemma length_inc_rev [simp]: "length (inc_rev bs) = length bs"
  by (induction bs) auto

lemma lval_less: "lval bs < 256 ^ length bs"
  using ip_val_less [of "rev bs"] by (simp add: ip_val_rev)

lemma lval_inc_rev: "lval (inc_rev bs) = (lval bs + 1) mod 256 ^ length bs"
proof (induction bs)
  case Nil
  show ?case by simp
next
  case (Cons b bs)
  show ?case
  proof (cases "b + 1 = 0")
    case True
    then have "b = - 1" by (simp add: eq_neg_iff_add_eq_0)
    then have b: "unat b = 255" by (simp add: unsigned_minus_1_eq_mask mask_eq_exp_minus_1)
    have "(lval (b # bs) + 1) mod 256 ^ length (b # bs) = (256 * (lval bs + 1)) mod (256 * 256 ^ length bs)"
      by (simp add: b)
    also have "\<dots> = 256 * ((lval bs + 1) mod 256 ^ length bs)"
      by (rule mult_mod_right [symmetric])
    finally show ?thesis using True Cons by simp
  next
    case False
    then have u: "unat (b + 1) = Suc (unat b)"
      using unatSuc [of b] by (simp add: add.commute)
    have "unat (b + 1) < 2 ^ 8" using unsigned_less [of "b + 1"] by simp
    then have "unat b + 1 \<le> 255" using u by simp
    moreover have "lval bs + 1 \<le> 256 ^ length bs" using lval_less [of bs] by simp
    then have "256 * (lval bs + 1) \<le> 256 * 256 ^ length bs" by (rule mult_le_mono2)
    ultimately have "lval (b # bs) + 1 < 256 ^ length (b # bs)" by simp
    then show ?thesis using False u by simp
  qed
qed

lemma length_inc [simp]: "length (inc ip) = length ip"
  by (simp add: inc_def)

lemma ip_val_inc: "ip_val (inc ip) = (ip_val ip + 1) mod 256 ^ length ip"
  using lval_inc_rev [of "rev ip"] by (simp add: inc_def ip_val_rev [symmetric])

lemma length_ip_of_nat [simp]: "length (ip_of_nat n) = 4"
  by (simp add: ip_of_nat_def)

lemma bytes_of_nat:
  fixes n :: nat
  shows "n div 16777216 * 16777216 + (n div 65536 mod 256 * 65536 + (n div 256 mod 256 * 256 + n mod 256)) = n"
proof -
  have a: "n div 65536 = n div 256 div 256" "n div 16777216 = n div 256 div 256 div 256"
    by (simp_all add: div_mult2_eq [symmetric])
  show ?thesis
    unfolding a
    using div_mult_mod_eq [of n 256] div_mult_mod_eq [of "n div 256" 256]
      div_mult_mod_eq [of "n div 256 div 256" 256]
    by linarith
qed

lemma ip_val_of_nat: "n < 2 ^ 32 \<Longrightarrow> ip_val (ip_of_nat n) = n"
  using bytes_of_nat [of n] by (simp add: ip_of_nat_def unat_of_nat)

lemma ip_of_nat_val:
  assumes "length ip = 4"
  shows "ip_of_nat (ip_val ip) = ip"
proof -
  from assms obtain a b c d where ip: "ip = [a, b, c, d]"
    by (auto simp: length_Suc_conv numeral_eq_Suc)
  have bd: "unat a < 256" "unat b < 256" "unat c < 256" "unat d < 256"
    using unsigned_less [of a] unsigned_less [of b] unsigned_less [of c] unsigned_less [of d]
    by simp_all
  define v where "v = ip_val ip"
  define w2 where "w2 = unat a * 256 + unat b"
  define w1 where "w1 = w2 * 256 + unat c"
  have v: "v = w1 * 256 + unat d"
    by (simp add: v_def ip w1_def w2_def)
  have dm: "(w * 256 + r) div 256 = w \<and> (w * 256 + r) mod 256 = r" if "r < 256" for w r :: nat
    using that by simp
  have d1: "v div 256 = w1" "v mod 256 = unat d"
    using dm [OF bd(4), of w1] by (simp_all only: v)
  have d2: "v div 256 div 256 = w2" "v div 256 mod 256 = unat c"
    using dm [OF bd(3), of w2] by (simp_all only: d1 w1_def)
  have d3: "v div 256 div 256 div 256 = unat a" "v div 256 div 256 mod 256 = unat b"
    using dm [OF bd(2), of "unat a"] by (simp_all only: d2 w2_def)
  have e: "v div 2 ^ 8 = v div 256" "v div 2 ^ 16 = v div 256 div 256"
    "v div 2 ^ 24 = v div 256 div 256 div 256"
    by (simp_all add: div_mult2_eq [symmetric])
  have "(of_nat (v div 2 ^ 24) :: 8 word) = a" by (simp only: e d3 of_nat_unat) simp
  moreover have "(of_nat (v div 2 ^ 16) :: 8 word) = b"
    using d3(2) by (simp only: e word_unat_eq_iff unat_of_nat) simp
  moreover have "(of_nat (v div 2 ^ 8) :: 8 word) = c"
    using d2(2) by (simp only: e word_unat_eq_iff unat_of_nat) simp
  moreover have "(of_nat v :: 8 word) = d"
    using d1(2) by (simp only: word_unat_eq_iff unat_of_nat) simp
  ultimately have "ip_of_nat v = [a, b, c, d]"
    by (simp only: ip_of_nat_def)
  then show ?thesis by (simp only: v_def ip)
qed

lemma CIDRMask_32: "CIDRMask p 32 = CIDRMask_bytes p 4"
  by (simp add: CIDRMask_def)

lemma To4_4 [simp]: "length ip = 4 \<Longrightarrow> To4 ip = Some ip"
  by (simp add: To4_def)

lemma Mask_16_4:
  "length ip4 = 4 \<Longrightarrow> length m = 4 \<Longrightarrow> Mask (v4InV6Prefix @ ip4) m = map2 (AND) ip4 m"
  by (simp add: Mask_def v4InV6Prefix_def)

lemma Mask_4_4:
  "length ip = 4 \<Longrightarrow> length m = 4 \<Longrightarrow> Mask ip m = map2 (AND) ip m"
  by (simp add: Mask_def)

text \<open>The network \<open>ParseCIDR\<close> returns for the address \<open>ip4\<close> and the prefix length \<open>p\<close>.\<close>

definition ipv4_net :: "IP \<Rightarrow> nat \<Rightarrow> IPNet" where
  "ipv4_net ip4 p = \<lparr> net_IP = Mask (v4InV6Prefix @ ip4) (CIDRMask p 32), net_Mask = CIDRMask p 32 \<rparr>"

lemma net_IP_val:
  assumes "length ip4 = 4" "p \<le> 32"
  shows "length (net_IP (ipv4_net ip4 p)) = 4"
    and "ip_val (net_IP (ipv4_net ip4 p)) = (ip_val ip4 div 2 ^ (32 - p)) * 2 ^ (32 - p)"
    and "Mask (v4InV6Prefix @ ip4) (net_Mask (ipv4_net ip4 p)) = net_IP (ipv4_net ip4 p)"
  using assms ip_val_Mask_bytes [of ip4 4 p]
  by (simp_all add: ipv4_net_def CIDRMask_32 Mask_16_4)

lemma Contains_ipv4_net:
  assumes "length ip4 = 4" "p \<le> 32" "length ip = 4"
  shows "Contains (ipv4_net ip4 p) ip
     \<longleftrightarrow> ip_val ip div 2 ^ (32 - p) = ip_val ip4 div 2 ^ (32 - p)"
proof -
  define nn where "nn = net_IP (ipv4_net ip4 p)"
  have nn: "length nn = 4" "ip_val nn = (ip_val ip4 div 2 ^ (32 - p)) * 2 ^ (32 - p)"
    using net_IP_val [OF assms(1,2)] by (simp_all add: nn_def)
  have "Contains (ipv4_net ip4 p) ip
      \<longleftrightarrow> list_all (\<lambda>(a, b, m). a AND m = b AND m) (zip nn (zip ip (CIDRMask_bytes p 4)))"
    using nn(1) assms(3) by (simp add: Contains_def nn_def [symmetric]) (simp add: ipv4_net_def CIDRMask_32)
  also have "\<dots> \<longleftrightarrow> ip_val nn div 2 ^ (8 * 4 - p) = ip_val ip div 2 ^ (8 * 4 - p)"
    using Contains_bytes [of nn 4 ip p] nn(1) assms by simp
  finally show ?thesis by (auto simp: nn(2))
qed

definition cidr_hosts :: "nat \<Rightarrow> nat \<Rightarrow> string list" where
  "cidr_hosts start cnt = map (\<lambda>n. IP_String (ip_of_nat n)) [start ..< start + cnt]"

lemma inc_ip_of_nat: "n < 2 ^ 32 \<Longrightarrow> inc (ip_of_nat n) = ip_of_nat ((n + 1) mod 2 ^ 32)"
proof -
  assume n: "n < 2 ^ 32"
  have "ip_val (inc (ip_of_nat n)) = (n + 1) mod 2 ^ 32"
    using ip_val_inc [of "ip_of_nat n"] n by (simp add: ip_val_of_nat)
  then show ?thesis
    using ip_of_nat_val [of "inc (ip_of_nat n)"] by simp
qed

lemma expand_loop_block:
  assumes ip4: "length ip4 = 4" and p: "1 \<le> p" "p \<le> 32"
    and q: "q = ip_val ip4 div 2 ^ (32 - p)"
    and v: "q * 2 ^ (32 - p) \<le> v" "v < (q + 1) * 2 ^ (32 - p)"
  shows "expand_loop (ipv4_net ip4 p) (ip_of_nat v) acc
           = Some (acc @ map (\<lambda>n. IP_String (ip_of_nat n)) [v ..< (q + 1) * 2 ^ (32 - p)])"
  using v
proof (induction "(q + 1) * 2 ^ (32 - p) - v" arbitrary: v acc)
  case 0
  then show ?case by simp
next
  case (Suc j)
  define k where "k = 32 - p"
  define e where "e = (q + 1) * 2 ^ k"
  let ?net = "ipv4_net ip4 p"
  let ?S = "\<lambda>n. IP_String (ip_of_nat n)"
  have k: "k < 32" using p by (simp add: k_def)
  have pk: "(2::nat) ^ 32 = 2 ^ p * 2 ^ k"
    using p by (simp add: k_def power_add [symmetric])
  have "ip_val ip4 < 2 ^ p * 2 ^ k"
    using ip_val_less [of ip4] ip4 pk by simp
  then have qp: "q < 2 ^ p"
    unfolding q k_def [symmetric] by (rule less_mult_imp_div_less)
  then have "q + 1 \<le> 2 ^ p" by simp
  then have "(q + 1) * 2 ^ k \<le> 2 ^ p * 2 ^ k" by (rule mult_le_mono1)
  then have e32: "e \<le> 2 ^ 32" by (simp only: e_def pk)
  have lo: "q * 2 ^ k \<le> v" and hi: "v < e"
    using Suc.prems by (simp_all add: e_def k_def)
  have v32: "v < 2 ^ 32" using hi e32 by simp
  have vq: "v div 2 ^ k = q"
    using lo hi by (intro div_nat_eqI) (simp_all add: e_def mult.commute)
  have cont: "Contains ?net (ip_of_nat v)"
    using Contains_ipv4_net [OF ip4 p(2), of "ip_of_nat v"] vq v32
    by (simp add: ip_val_of_nat k_def q)
  have step: "expand_loop ?net (ip_of_nat v) acc
      = expand_loop ?net (ip_of_nat ((v + 1) mod 2 ^ 32)) (acc @ [?S v])"
    using cont by (subst expand_loop.simps) (simp add: inc_ip_of_nat [OF v32])
  show ?case
  proof (cases "v + 1 < e")
    case True
    then have m: "(v + 1) mod 2 ^ 32 = v + 1" using e32 by simp
    have j: "j = e - (v + 1)" using Suc.hyps(2) by (simp add: e_def k_def)
    have ih: "expand_loop ?net (ip_of_nat (v + 1)) (acc @ [?S v])
        = Some ((acc @ [?S v]) @ map ?S [v + 1 ..< e])"
      unfolding e_def k_def
      by (rule Suc.hyps(1)) (use j lo True in \<open>simp_all add: e_def k_def\<close>)
    have u: "[v ..< e] = v # [v + 1 ..< e]"
      using hi by (simp add: upt_conv_Cons)
    have "expand_loop ?net (ip_of_nat v) acc = expand_loop ?net (ip_of_nat (v + 1)) (acc @ [?S v])"
      by (simp only: step m)
    also have "\<dots> = Some (acc @ map ?S [v ..< e])"
      by (simp only: ih u) simp
    finally show ?thesis by (simp only: e_def k_def)
  next
    case False
    then have ve: "v + 1 = e" using hi by simp
    have ne: "(e mod 2 ^ 32) div 2 ^ k \<noteq> q"
    proof (cases "e < 2 ^ 32")
      case True
      then have "(e mod 2 ^ 32) div 2 ^ k = q + 1" by (simp add: e_def)
      then show ?thesis by simp
    next
      case False
      then have e: "e = 2 ^ 32" using e32 by simp
      have "q \<noteq> 0"
      proof
        assume "q = 0"
        then have "(2::nat) ^ k = 2 ^ 32" using e by (simp add: e_def)
        moreover have "(2::nat) ^ k < 2 ^ 32"
          using k by (intro power_strict_increasing) simp_all
        ultimately show False by linarith
      qed
      then show ?thesis by (simp add: e)
    qed
    have "\<not> Contains ?net (ip_of_nat (e mod 2 ^ 32))"
      using Contains_ipv4_net [OF ip4 p(2), of "ip_of_nat (e mod 2 ^ 32)"] ne
      by (simp add: ip_val_of_nat k_def q)
    then have stop: "expand_loop ?net (ip_of_nat (e mod 2 ^ 32)) (acc @ [?S v]) = Some (acc @ [?S v])"
      by (subst expand_loop.simps) simp
    have u: "[v ..< e] = [v]"
      using ve by (simp add: upt_conv_Cons)
    have "expand_loop ?net (ip_of_nat v) acc = Some (acc @ [?S v])"
      by (simp only: step ve stop)
    also have "\<dots> = Some (acc @ map ?S [v ..< e])"
      by (simp only: u) simp
    finally show ?thesis by (simp only: e_def k_def)
  qed
qed

lemma expand_loop_never_returns:
  assumes "expand_loop ipnet ip acc = Some y"
  shows "\<not> (\<exists>ip4. length ip4 = 4 \<and> ipnet = ipv4_net ip4 0 \<and> length ip = 4)"
proof (rule expand_loop.raw_induct
    [where P = "\<lambda>ipnet ip acc y. \<not> (\<exists>ip4. length ip4 = 4 \<and> ipnet = ipv4_net ip4 0 \<and> length ip = 4)",
      OF _ assms])
  fix f :: "IPNet \<Rightarrow> IP \<Rightarrow> string list \<Rightarrow> string list option" and ipnet ip acc y
  assume ih: "\<And>ipnet ip acc y. f ipnet ip acc = Some y \<Longrightarrow>
      \<not> (\<exists>ip4. length ip4 = 4 \<and> ipnet = ipv4_net ip4 0 \<and> length ip = 4)"
    and eq: "(if Contains ipnet ip then f ipnet (inc ip) (acc @ [IP_String ip]) else Some acc) = Some y"
  show "\<not> (\<exists>ip4. length ip4 = 4 \<and> ipnet = ipv4_net ip4 0 \<and> length ip = 4)"
  proof
    assume "\<exists>ip4. length ip4 = 4 \<and> ipnet = ipv4_net ip4 0 \<and> length ip = 4"
    then obtain ip4 where a: "length ip4 = 4" "ipnet = ipv4_net ip4 0" "length ip = 4" by blast
    have v: "ip_val ip < 2 ^ 32" "ip_val ip4 < 2 ^ 32"
      using ip_val_less [of ip] ip_val_less [of ip4] a by simp_all
    have "Contains ipnet ip"
      using Contains_ipv4_net [OF a(1) _ a(3), of 0] v by (simp add: a(2))
    then have "f ipnet (inc ip) (acc @ [IP_String ip]) = Some y"
      using eq by simp
    from ih [OF this] have "\<not> (length ip4 = 4 \<and> ipnet = ipv4_net ip4 0 \<and> length (inc ip) = 4)"
      by blast
    then show False using a by simp
  qed
qed

lemma expand_loop_slash_zero:
  "length ip4 = 4 \<Longrightarrow> length ip = 4 \<Longrightarrow> expand_loop (ipv4_net ip4 0) ip acc = None"
  using expand_loop_never_returns [of "ipv4_net ip4 0" ip acc] by (cases "expand_loop (ipv4_net ip4 0) ip acc") auto

lemma length_parseIPv4: "parseIPv4 s = Some ip4 \<Longrightarrow> length ip4 = 4"
  by (auto simp: parseIPv4_def split: list.splits option.splits)

lemma ParseCIDR_Some:
  assumes "ParseCIDR target = Some (ip, ipnet)"
  shows "\<exists>ip4. length ip4 = 4 \<and> prefix_length target \<le> 32 \<and> ip = v4InV6Prefix @ ip4
           \<and> ipnet = ipv4_net ip4 (prefix_length target)"
proof -
  from assms obtain ip4 where ip4: "parseIPv4 (takeWhile (\<lambda>c. c \<noteq> CHR ''/'') target) = Some ip4"
    by (auto simp: ParseCIDR_def Let_def split: if_splits option.splits)
  have "prefix_length target \<le> 32" "ip = v4InV6Prefix @ ip4"
    "ipnet = ipv4_net ip4 (prefix_length target)"
    using assms ip4
    by (auto simp: ParseCIDR_def Let_def ipv4_net_def split: if_splits)
  with length_parseIPv4 [OF ip4] show ?thesis by blast
qed

lemma set_itoa_nat: "set (itoa_nat n) \<subseteq> set ''0123456789''"
proof (induction n rule: itoa_nat.induct)
  case (1 n)
  have d: "digit_char k \<in> set ''0123456789''" if "k < 10" for k
    using that unfolding digit_char_def by (intro nth_mem) simp
  show ?case
  proof (cases "n < 10")
    case True
    then show ?thesis using d [of n] by (subst itoa_nat.simps) simp
  next
    case False
    then show ?thesis
      using 1 d [of "n mod 10"] by (subst itoa_nat.simps) simp
  qed
qed

lemma dot_notin_itoa_nat: "CHR ''.'' \<notin> set (itoa_nat n)"
  using set_itoa_nat [of n] by auto

lemma of_char_digit_char: "k < 10 \<Longrightarrow> (of_char (digit_char k) :: nat) = 48 + k"
proof -
  assume "k < 10"
  then have "k \<in> {0, 1, 2, 3, 4, 5, 6, 7, 8, 9}" by auto
  then show ?thesis by (auto simp: digit_char_def)
qed

lemma digits_val_snoc: "digits_val (ds @ [c]) = digits_val ds * 10 + (of_char c - 48)"
  by (simp add: digits_val_def)

lemma digits_val_itoa_nat: "digits_val (itoa_nat n) = n"
proof (induction n rule: itoa_nat.induct)
  case (1 n)
  show ?case
  proof (cases "n < 10")
    case True
    then show ?thesis
      by (subst itoa_nat.simps) (simp add: digits_val_def of_char_digit_char)
  next
    case False
    then show ?thesis
      using 1 by (subst itoa_nat.simps) (simp add: digits_val_snoc of_char_digit_char)
  qed
qed

lemma itoa_nat_inj: "itoa_nat n = itoa_nat m \<Longrightarrow> n = m"
  by (metis digits_val_itoa_nat)

lemma dotted_eq:
  assumes "xs @ CHR ''.'' # r = ys @ CHR ''.'' # r'" "CHR ''.'' \<notin> set xs" "CHR ''.'' \<notin> set ys"
  shows "xs = ys \<and> r = r'"
proof -
  have "takeWhile (\<lambda>c. c \<noteq> CHR ''.'') (xs @ CHR ''.'' # r) = xs"
    "takeWhile (\<lambda>c. c \<noteq> CHR ''.'') (ys @ CHR ''.'' # r') = ys"
    using assms(2,3) by (auto simp: takeWhile_append)
  with assms(1) have "xs = ys" by simp
  with assms(1) show ?thesis by simp
qed

lemma IP_String_inj:
  assumes "length ip = 4" "length ip' = 4" "IP_String ip = IP_String ip'"
  shows "ip = ip'"
proof -
  from assms(1) obtain a b c d where ip: "ip = [a, b, c, d]"
    by (auto simp: length_Suc_conv numeral_eq_Suc)
  from assms(2) obtain a' b' c' d' where ip': "ip' = [a', b', c', d']"
    by (auto simp: length_Suc_conv numeral_eq_Suc)
  have e: "itoa_nat (unat a) @ CHR ''.'' # (itoa_nat (unat b) @ CHR ''.'' # (itoa_nat (unat c)
              @ CHR ''.'' # itoa_nat (unat d)))
      = itoa_nat (unat a') @ CHR ''.'' # (itoa_nat (unat b') @ CHR ''.'' # (itoa_nat (unat c')
              @ CHR ''.'' # itoa_nat (unat d')))"
    using assms(3) by (simp add: IP_String_def ip ip')
  from dotted_eq [OF e dot_notin_itoa_nat dot_notin_itoa_nat]
  have 1: "itoa_nat (unat a) = itoa_nat (unat a')"
    and e2: "itoa_nat (unat b) @ CHR ''.'' # (itoa_nat (unat c) @ CHR ''.'' # itoa_nat (unat d))
      = itoa_nat (unat b') @ CHR ''.'' # (itoa_nat (unat c') @ CHR ''.'' # itoa_nat (unat d'))"
    by simp_all
  from dotted_eq [OF e2 dot_notin_itoa_nat dot_notin_itoa_nat]
  have 2: "itoa_nat (unat b) = itoa_nat (unat b')"
    and e3: "itoa_nat (unat c) @ CHR ''.'' # itoa_nat (unat d)
      = itoa_nat (unat c') @ CHR ''.'' # itoa_nat (unat d')"
    by simp_all
  from dotted_eq [OF e3 dot_notin_itoa_nat dot_notin_itoa_nat]
  have 3: "itoa_nat (unat c) = itoa_nat (unat c')" and 4: "itoa_nat (unat d) = itoa_nat (unat d')"
    by simp_all
  from 1 2 3 4 show ?thesis
    by (auto simp: ip ip' word_unat_eq_iff dest: itoa_nat_inj)
qed

lemma cidr_hosts_distinct:
  assumes "start + cnt \<le> 2 ^ 32"
  shows "distinct (cidr_hosts start cnt)"
proof -
  have "inj_on (\<lambda>n. IP_String (ip_of_nat n)) (set [start ..< start + cnt])"
  proof (rule inj_onI)
    fix n m
    assume nm: "n \<in> set [start ..< start + cnt]" "m \<in> set [start ..< start + cnt]"
      and eq: "IP_String (ip_of_nat n) = IP_String (ip_of_nat m)"
    have "ip_of_nat n = ip_of_nat m"
      using IP_String_inj [OF _ _ eq] by simp
    then have "ip_val (ip_of_nat n) = ip_val (ip_of_nat m)" by simp
    then show "n = m" using nm assms by (simp add: ip_val_of_nat)
  qed
  then show ?thesis by (simp add: cidr_hosts_def distinct_map)
qed

lemma removeDuplicates_loop_set:
  "set (removeDuplicates_loop items keys result) = set result \<union> (set items - keys)"
  by (induction items arbitrary: keys result) auto

lemma removeDuplicates_loop_distinct:
  "distinct result \<Longrightarrow> set result \<subseteq> keys \<Longrightarrow> distinct (removeDuplicates_loop items keys result)"
proof (induction items arbitrary: keys result)
  case Nil
  then show ?case by simp
next
  case (Cons a items)
  show ?case
  proof (cases "a \<in> keys")
    case True
    then show ?thesis using Cons by simp
  next
    case False
    have "distinct (result @ [a])" "set (result @ [a]) \<subseteq> insert a keys"
      using Cons.prems False by auto
    from Cons.IH [OF this] show ?thesis using False by simp
  qed
qed

lemma removeDuplicates_loop_snoc:
  "removeDuplicates_loop (items @ [x]) keys result =
     (if x \<in> keys \<union> set items then removeDuplicates_loop items keys result
      else removeDuplicates_loop items keys result @ [x])"
  by (induction items arbitrary: keys result) auto

lemma removeDuplicates_loop_id:
  "distinct items \<Longrightarrow> set items \<inter> keys = {} \<Longrightarrow>
     removeDuplicates_loop items keys result = result @ items"
  by (induction items arbitrary: keys result) auto

lemma removeDuplicates_set [simp]: "set (removeDuplicates items) = set items"
  by (simp add: removeDuplicates_def removeDuplicates_loop_set)

lemma removeDuplicates_distinct [simp]: "distinct (removeDuplicates items)"
  by (simp add: removeDuplicates_def removeDuplicates_loop_distinct)

lemma removeDuplicates_snoc:
  "removeDuplicates (items @ [x]) =
     (if x \<in> set items then removeDuplicates items else removeDuplicates items @ [x])"
  by (simp add: removeDuplicates_def removeDuplicates_loop_snoc)

lemma removeDuplicates_id: "distinct items \<Longrightarrow> removeDuplicates items = items"
  by (simp add: removeDuplicates_def removeDuplicates_loop_id)

lemma removeDuplicates_Nil [simp]: "removeDuplicates [] = []"
  by (simp add: removeDuplicates_def)

text \<open>What one target adds to \<open>allHosts\<close> when its loop returns: for a network, the
  addresses from its number upwards, as many as the prefix length leaves free.\<close>

definition target_hosts :: "string \<Rightarrow> string list" where
  "target_hosts target =
     (if CHR ''/'' \<in> set target then
        (case ParseCIDR target of
           Some (ip, ipnet) \<Rightarrow> cidr_hosts (ip_val (net_IP ipnet)) (2 ^ (32 - prefix_length target))
         | None \<Rightarrow> [])
      else [target])"

lemma expand_loop_cidr:
  assumes "ParseCIDR target = Some (ip, ipnet)" "1 \<le> prefix_length target"
  shows "expand_loop ipnet (Mask ip (net_Mask ipnet)) acc
           = Some (acc @ cidr_hosts (ip_val (net_IP ipnet)) (2 ^ (32 - prefix_length target)))"
    and "ip_val (net_IP ipnet) + 2 ^ (32 - prefix_length target) \<le> 2 ^ 32"
    and "ip_val (net_IP ipnet) mod 2 ^ (32 - prefix_length target) = 0"
proof -
  define p where "p = prefix_length target"
  from ParseCIDR_Some [OF assms(1)] obtain ip4 where ip4: "length ip4 = 4" and p: "p \<le> 32"
    and ip: "ip = v4InV6Prefix @ ip4" and net: "ipnet = ipv4_net ip4 p"
    by (auto simp: p_def)
  define q where "q = ip_val ip4 div 2 ^ (32 - p)"
  have n0: "ip_val (net_IP ipnet) = q * 2 ^ (32 - p)" and len: "length (net_IP ipnet) = 4"
    and start: "Mask ip (net_Mask ipnet) = net_IP ipnet"
    using net_IP_val [OF ip4 p] by (simp_all add: net ip q_def)
  have pk: "(2::nat) ^ 32 = 2 ^ p * 2 ^ (32 - p)"
    using p by (simp add: power_add [symmetric])
  have "ip_val ip4 < 2 ^ p * 2 ^ (32 - p)"
    using ip_val_less [of ip4] ip4 pk by simp
  then have "q < 2 ^ p"
    unfolding q_def by (rule less_mult_imp_div_less)
  then have "q + 1 \<le> 2 ^ p" by simp
  then have "(q + 1) * 2 ^ (32 - p) \<le> 2 ^ p * 2 ^ (32 - p)" by (rule mult_le_mono1)
  then have top: "q * 2 ^ (32 - p) + 2 ^ (32 - p) \<le> 2 ^ 32"
    by (simp only: pk) simp
  have nat: "net_IP ipnet = ip_of_nat (q * 2 ^ (32 - p))"
    using ip_of_nat_val [OF len] by (simp add: n0)
  have "expand_loop ipnet (Mask ip (net_Mask ipnet)) acc
      = expand_loop ipnet (ip_of_nat (q * 2 ^ (32 - p))) acc"
    by (simp only: start nat)
  also have "\<dots> = expand_loop (ipv4_net ip4 p) (ip_of_nat (q * 2 ^ (32 - p))) acc"
    by (simp only: net)
  also have "\<dots> = Some (acc @ map (\<lambda>n. IP_String (ip_of_nat n))
                             [q * 2 ^ (32 - p) ..< (q + 1) * 2 ^ (32 - p)])"
    using assms(2) p by (intro expand_loop_block [OF ip4 _ _ q_def]) (simp_all add: p_def)
  finally show "expand_loop ipnet (Mask ip (net_Mask ipnet)) acc
           = Some (acc @ cidr_hosts (ip_val (net_IP ipnet)) (2 ^ (32 - prefix_length target)))"
    by (simp add: cidr_hosts_def n0 p_def add.commute)
  show "ip_val (net_IP ipnet) + 2 ^ (32 - prefix_length target) \<le> 2 ^ 32"
    using top by (simp add: n0 p_def)
  show "ip_val (net_IP ipnet) mod 2 ^ (32 - prefix_length target) = 0"
    by (simp add: n0 p_def)
qed

lemma expand_targets_loop_returns:
  assumes "\<forall>t \<in> set targets. ParseCIDR t \<noteq> None \<longrightarrow> 1 \<le> prefix_length t"
  shows "expand_targets_loop targets acc = Some (acc @ concat (map target_hosts targets))"
  using assms
proof (induction targets arbitrary: acc)
  case Nil
  show ?case by simp
next
  case (Cons t ts)
  show ?case
  proof (cases "CHR ''/'' \<in> set t")
    case False
    then show ?thesis using Cons by (simp add: target_hosts_def)
  next
    case True
    show ?thesis
    proof (cases "ParseCIDR t")
      case None
      then show ?thesis using True Cons by (simp add: target_hosts_def)
    next
      case (Some r)
      obtain ip ipnet where r: "r = (ip, ipnet)" by (cases r)
      have "1 \<le> prefix_length t" using Cons.prems Some by simp
      from expand_loop_cidr(1) [OF Some [unfolded r] this]
      show ?thesis using True Some r Cons by (simp add: target_hosts_def)
    qed
  qed
qed

lemma ParseCIDR_slash: "ParseCIDR target = Some r \<Longrightarrow> CHR ''/'' \<in> set target"
  by (auto simp: ParseCIDR_def split: if_splits)

text \<open>
  For every valid IPv4 network with a prefix length of at least 1, expansion emits the
  \<open>2 ^ (32 - p)\<close> addresses of the block, from the network number upwards, each
  once; a target without \<open>/\<close> is emitted as it is; and when every network among the
  targets has a prefix length of at least 1, the result is the targets' contributions
  in order with later repeats removed.
\<close>

lemma expandTargets_cidr:
  assumes "ParseCIDR target = Some (ip, ipnet)" "prefix_length target = p" "1 \<le> p"
  shows "expandTargets (s\<lparr>Targets := [target]\<rparr>)
           = Some (map (\<lambda>n. IP_String (ip_of_nat n))
                       [ip_val (net_IP ipnet) ..< ip_val (net_IP ipnet) + 2 ^ (32 - p)])"
    and "\<exists>hosts. expandTargets (s\<lparr>Targets := [target]\<rparr>) = Some hosts
           \<and> length hosts = 2 ^ (32 - p) \<and> distinct hosts"
proof -
  have sl: "CHR ''/'' \<in> set target" using assms(1) by (rule ParseCIDR_slash)
  have d: "distinct (cidr_hosts (ip_val (net_IP ipnet)) (2 ^ (32 - p)))"
    using expand_loop_cidr(2) [OF assms(1)] assms(2,3) by (intro cidr_hosts_distinct) simp
  have "expand_targets_loop [target] [] = Some (cidr_hosts (ip_val (net_IP ipnet)) (2 ^ (32 - p)))"
    using expand_loop_cidr(1) [OF assms(1), of "[]"] assms(2,3) sl assms(1) by simp
  then have e: "expandTargets (s\<lparr>Targets := [target]\<rparr>)
      = Some (cidr_hosts (ip_val (net_IP ipnet)) (2 ^ (32 - p)))"
    using d by (simp add: expandTargets_def removeDuplicates_id)
  then show "expandTargets (s\<lparr>Targets := [target]\<rparr>)
           = Some (map (\<lambda>n. IP_String (ip_of_nat n))
                       [ip_val (net_IP ipnet) ..< ip_val (net_IP ipnet) + 2 ^ (32 - p)])"
    by (simp add: cidr_hosts_def)
  show "\<exists>hosts. expandTargets (s\<lparr>Targets := [target]\<rparr>) = Some hosts
           \<and> length hosts = 2 ^ (32 - p) \<and> distinct hosts"
    using e d by (simp add: cidr_hosts_def)
qed

lemma expandTargets_returns:
  assumes "\<forall>t \<in> set (Targets s). ParseCIDR t \<noteq> None \<longrightarrow> 1 \<le> prefix_length t"
  shows "expandTargets s = Some (removeDuplicates (concat (map target_hosts (Targets s))))"
  using expand_targets_loop_returns [OF assms, of "[]"] by (simp add: expandTargets_def)

lemma ParseCIDR_zero: "ParseCIDR ''0.0.0.0/0'' = Some (v4InV6Prefix @ [0, 0, 0, 0], ipv4_net [0, 0, 0, 0] 0)"
  by (simp add: ParseCIDR_def parseIPv4_def parse_octet_def is_digit_def digits_val_def
      prefix_length_def ipv4_net_def Let_def)

text \<open>
  C4. The expansion of the valid IPv4 network \<open>0.0.0.0/0\<close> never returns: after
  \<open>255.255.255.255\<close> the address wraps to \<open>0.0.0.0\<close>, which the network contains,
  so the loop of line 169 has no exit.
\<close>

theorem expandTargets_slash_zero_never_returns:
  "expandTargets (NewPDive2 [''0.0.0.0/0''] ''out'' 50 ''active'' 0) = None"
proof -
  have "length (Mask (v4InV6Prefix @ [0, 0, 0, 0]) (net_Mask (ipv4_net [0, 0, 0, 0] 0))) = 4"
    using net_IP_val(1,3) [of "[0, 0, 0, 0]" 0] by simp
  then have "expand_loop (ipv4_net [0, 0, 0, 0] 0)
      (Mask (v4InV6Prefix @ [0, 0, 0, 0]) (net_Mask (ipv4_net [0, 0, 0, 0] 0))) [] = None"
    by (intro expand_loop_slash_zero) simp_all
  then show ?thesis
    by (simp add: expandTargets_def NewPDive2_def ParseCIDR_zero)
qed

lemma expandTargets_example:
  "expandTargets (NewPDive2 [''10.0.0.5/30'', ''host.example'', ''10.0.0.6''] ''out'' 50 ''active'' 0)
     = Some [''10.0.0.4'', ''10.0.0.5'', ''10.0.0.6'', ''10.0.0.7'', ''host.example'']"
proof -
  have p: "ParseCIDR ''10.0.0.5/30'' = Some (v4InV6Prefix @ [10, 0, 0, 5], ipv4_net [10, 0, 0, 5] 30)"
    "prefix_length ''10.0.0.5/30'' = 30"
    by (simp_all add: ParseCIDR_def parseIPv4_def parse_octet_def is_digit_def digits_val_def
      prefix_length_def ipv4_net_def Let_def)
  have n: "ParseCIDR ''host.example'' = None" "ParseCIDR ''10.0.0.6'' = None"
    by (simp_all add: ParseCIDR_def)
  have v: "ip_val (net_IP (ipv4_net [10, 0, 0, 5] 30)) = 167772164"
    using net_IP_val(2) [of "[10, 0, 0, 5]" 30] by simp
  have h: "cidr_hosts 167772164 4 = [''10.0.0.4'', ''10.0.0.5'', ''10.0.0.6'', ''10.0.0.7'']"
    by (simp add: cidr_hosts_def upt_rec ip_of_nat_def IP_String_def To4_def itoa_nat.simps
        digit_char_def)
  have "expandTargets (NewPDive2 [''10.0.0.5/30'', ''host.example'', ''10.0.0.6''] ''out'' 50 ''active'' 0)
      = Some (removeDuplicates (concat (map target_hosts [''10.0.0.5/30'', ''host.example'', ''10.0.0.6''])))"
    using expandTargets_returns [of "NewPDive2 [''10.0.0.5/30'', ''host.example'', ''10.0.0.6''] ''out'' 50 ''active'' 0"]
    by (simp add: NewPDive2_def p n)
  then show ?thesis
    by (simp add: target_hosts_def p v h removeDuplicates_def)
qed

section \<open>Passive discovery (main.go, lines 493-580)\<close>




section \<open>The host and port collections of the result store\<close>



lemma map_Host_update_Ports [simp]:
  "map Host (hs[i := (hs ! i)\<lparr>Ports := ps\<rparr>]) = map Host hs"
proof (cases "i < length hs")
  case True
  show ?thesis
  proof (rule nth_equalityI)
    show "length (map Host (hs[i := (hs ! i)\<lparr>Ports := ps\<rparr>])) = length (map Host hs)" by simp
  next
    fix j
    assume "j < length (map Host (hs[i := (hs ! i)\<lparr>Ports := ps\<rparr>]))"
    then have j: "j < length hs" by simp
    show "map Host (hs[i := (hs ! i)\<lparr>Ports := ps\<rparr>]) ! j = map Host hs ! j"
      using j True by (cases "j = i") simp_all
  qed
next
  case False
  then have "length hs \<le> i" by (simp add: not_less)
  then have "hs[i := (hs ! i)\<lparr>Ports := ps\<rparr>] = hs" by (rule list_update_beyond)
  then show ?thesis by (simp only:)
qed

lemma merge_host_hosts:
  "map Host (Hosts (merge_host results host res)) =
     (if host \<in> set (map Host (Hosts res)) then map Host (Hosts res)
      else map Host (Hosts res) @ [host])"
proof (cases "findHost (Hosts res) host")
  case None
  then have n: "host \<notin> set (map Host (Hosts res))" by (simp add: findHost_None_iff)
  have "map Host ((Hosts res @ [up_host host])[length (Hosts res) := x\<lparr>Ports := ps\<rparr>])
      = map Host (Hosts res) @ [Host x]" for x ps
    by (simp add: list_update_append)
  then show ?thesis
    using None n by (simp add: merge_host_def up_host_def nth_append split: option.splits)
next
  case (Some i)
  then have "host \<in> set (map Host (Hosts res))"
    using findHost_None_iff [of "Hosts res" host] by auto
  then show ?thesis
    using Some by (simp add: merge_host_def split: option.splits)
qed











lemma merge_host_length: "length (Hosts res) \<le> length (Hosts (merge_host results h res))"
  using merge_host_hosts [of results h res]
  by (metis (no_types, lifting) le_add1 length_append length_map order_refl)

lemma masscan_merge_length: "length (Hosts res) \<le> length (Hosts (masscan_merge results hosts res))"
  unfolding masscan_merge_def
proof (induction hosts arbitrary: res)
  case Nil
  show ?case by simp
next
  case (Cons h hosts)
  show ?case
    using Cons [of "merge_host results h res"] merge_host_length [of res results h] by simp
qed









section \<open>Service identification on the result store\<close>









section \<open>The worker pools of the phases (main.go, lines 236, 271, 354, 382)\<close>

text \<open>
  The program has four pools: the ping phase and the liveness fallback of
  \<open>HostDiscovery\<close>, the fan-out over hosts of \<open>PortScan\<close> and the fan-out over ports
  of \<open>scanHostPorts\<close>. \<open>pool_bound\<close> is the bound of the loop that starts the
  goroutines: \<open>i < p.Threads\<close> (lines 236 and 354), \<open>i < min(p.Threads, 20)\<close>
  (line 271) and \<open>i < min(p.Threads, 50)\<close> (line 382).
\<close>

datatype phase = PingPhase | FallbackPhase | HostFanout | PortFanout

fun pool_bound :: "phase \<Rightarrow> int \<Rightarrow> int" where
  "pool_bound PingPhase threads = threads"
| "pool_bound FallbackPhase threads = min threads 20"
| "pool_bound HostFanout threads = threads"
| "pool_bound PortFanout threads = min threads 50"

text \<open>The pool of a phase as it is started: the channel holds the items, the workers are idle.\<close>

definition phase_pool :: "phase \<Rightarrow> int \<Rightarrow> 'a list \<Rightarrow> 'a pool" where
  "phase_pool ph threads items = pool_init (num_workers (pool_bound ph threads)) items"

text \<open>
  A concurrent run of a phase: \<open>s\<close> is the state in which the phase's pool has returned,
  and the worker bodies take effect in the order in which the workers finished their
  items, the order of \<open>done_log s\<close>. (For \<open>scanHostPorts\<close> the effect is the append to
  \<open>openPorts\<close>; for \<open>PortScan\<close> it is the store update at the end of
  \<open>scanHostPorts\<close>.)
\<close>

definition phase1_run :: "(string \<Rightarrow> bool) \<Rightarrow> string pool \<Rightarrow> discovery \<Rightarrow> discovery" where
  "phase1_run pingHost s st = fold (ping_worker pingHost) (map snd (done_log s)) st"

definition phase2_run :: "(string \<Rightarrow> int \<Rightarrow> bool) \<Rightarrow> string pool \<Rightarrow> discovery \<Rightarrow> discovery" where
  "phase2_run dial s st = fold (port_worker dial) (map snd (done_log s)) st"

definition PortScan_run ::
  "(string \<Rightarrow> int \<Rightarrow> bool) \<Rightarrow> (string \<Rightarrow> nat list) \<Rightarrow> int \<Rightarrow> string pool \<Rightarrow> ScanResults
     \<Rightarrow> ScanResults" where
  "PortScan_run dial orders threads s res =
     fold (\<lambda>host r. fst (scanHostPorts dial (orders host) threads host commonPorts r))
          (map snd (done_log s)) res"

definition scanHostPorts_run ::
  "(string \<Rightarrow> int \<Rightarrow> bool) \<Rightarrow> string \<Rightarrow> int pool \<Rightarrow> ScanResults
     \<Rightarrow> ScanResults \<times> (int \<times> bool) list" where
  "scanHostPorts_run dial host s res =
     (let probed = map snd (done_log s);
          openPorts = map open_port (filter (scanPort dial host) probed)
      in (res\<lparr>Hosts := setPorts (Hosts res) host openPorts\<rparr>,
          map (\<lambda>port. (port, scanPort dial host port)) probed))"

text \<open>
  In every state a worker has at most one move, so a run is given by naming the worker
  that moves at each step. \<open>run_schedule\<close> executes such a schedule; \<open>None\<close> when a
  worker named has exited or does not exist.
\<close>

fun sched_step :: "nat \<Rightarrow> 'a pool \<Rightarrow> 'a pool option" where
  "sched_step w s =
     (if w < length (workers s) then
        (case workers s ! w of
           Idle \<Rightarrow> (case chan s of
                      [] \<Rightarrow> Some (s\<lparr>workers := (workers s)[w := Exited]\<rparr>)
                    | x # rest \<Rightarrow> Some (s\<lparr>chan := rest, workers := (workers s)[w := Busy x]\<rparr>))
         | Busy x \<Rightarrow> Some (s\<lparr>workers := (workers s)[w := Idle], done_log := done_log s @ [(w, x)]\<rparr>)
         | Exited \<Rightarrow> None)
      else None)"

fun run_schedule :: "nat list \<Rightarrow> 'a pool \<Rightarrow> 'a pool option" where
  "run_schedule [] s = Some s"
| "run_schedule (w # ws) s = (case sched_step w s of None \<Rightarrow> None | Some s' \<Rightarrow> run_schedule ws s')"

lemma sched_step_sound: "sched_step w s = Some s' \<Longrightarrow> pool_step s s'"
  by (auto split: if_splits worker.splits list.splits intro: pool_step.intros)

lemma run_schedule_sound: "run_schedule ws s = Some s' \<Longrightarrow> pool_step\<^sup>*\<^sup>* s s'"
proof (induction ws arbitrary: s)
  case Nil
  then show ?case by simp
next
  case (Cons w ws)
  from Cons.prems obtain s1 where s1: "sched_step w s = Some s1" "run_schedule ws s1 = Some s'"
    by (auto split: option.splits)
  have "pool_step s s1" using s1(1) by (rule sched_step_sound)
  moreover have "pool_step\<^sup>*\<^sup>* s1 s'" using s1(2) by (rule Cons.IH)
  ultimately show ?case by (rule converse_rtranclp_into_rtranclp)
qed

lemma permute_complete: "mset ys = mset xs \<Longrightarrow> \<exists>ks. permute ks xs = ys"
proof (induction ys arbitrary: xs)
  case Nil
  then have "xs = []" by simp
  then have "permute [] xs = []" by simp
  then show ?case by blast
next
  case (Cons y ys)
  then have "y \<in> set xs" by (metis list.set_intros(1) set_mset_mset)
  then obtain i where i: "i < length xs" "xs ! i = y" by (auto simp: in_set_conv_nth)
  have xs: "xs = take i xs @ y # drop (Suc i) xs"
    using i by (metis id_take_nth_drop)
  have "mset xs = mset (take i xs @ drop (Suc i) xs) + {#y#}"
    by (subst xs) simp
  then have "mset ys = mset (take i xs @ drop (Suc i) xs)"
    using Cons.prems by simp
  from Cons.IH [OF this] obtain ks where ks: "permute ks (take i xs @ drop (Suc i) xs) = ys" by blast
  have "xs \<noteq> []" using i by auto
  then have "permute (i # ks) xs = y # ys"
    using i ks by (simp add: Let_def)
  then show ?case by blast
qed

lemma pool_returned_log:
  assumes "pool_step\<^sup>*\<^sup>* (pool_init (num_workers n) items) s" "pool_returned s"
  shows "mset (map snd (done_log s)) = mset (workerPool n items)"
proof (cases "0 < n")
  case True
  then have "0 < num_workers n" by (simp add: num_workers_def)
  from pool_returned_processed [OF pool_inv_reachable [OF assms(1)] assms(2) this]
  show ?thesis using True by (simp add: workerPool_def)
next
  case False
  then have "num_workers n = 0" by (simp add: num_workers_def)
  then have "s = pool_init 0 items" using assms(1) pool_no_workers [of items s] by simp
  then show ?thesis using False by (simp add: pool_init_def workerPool_def)
qed

lemma phase_pool_facts:
  assumes "pool_step\<^sup>*\<^sup>* (phase_pool ph threads items) s"
  shows "length (workers s) = num_workers (pool_bound ph threads)"
    and "\<forall>e \<in> set (done_log s). fst e < length (workers s)"
    and "mset (map snd (done_log s)) \<subseteq># mset items"
    and "pool_returned s \<Longrightarrow> mset (map snd (done_log s)) = mset (workerPool (pool_bound ph threads) items)"
    and "threads \<le> 0 \<Longrightarrow> workers s = [] \<and> pool_returned s \<and> done_log s = []"
proof -
  have inv: "pool_inv (num_workers (pool_bound ph threads)) items s"
    using assms unfolding phase_pool_def by (rule pool_inv_reachable)
  show len: "length (workers s) = num_workers (pool_bound ph threads)"
    using inv by (simp add: pool_inv_def)
  show "\<forall>e \<in> set (done_log s). fst e < length (workers s)"
    using inv unfolding len by (simp add: pool_inv_def)
  have "mset (map snd (done_log s)) + sum_list (map in_hand (workers s)) + mset (chan s) = mset items"
    using inv by (simp add: pool_inv_def)
  then show "mset (map snd (done_log s)) \<subseteq># mset items"
    by (metis mset_subset_eq_add_left union_assoc)
  show "pool_returned s \<Longrightarrow> mset (map snd (done_log s)) = mset (workerPool (pool_bound ph threads) items)"
    using assms unfolding phase_pool_def by (rule pool_returned_log)
  show "workers s = [] \<and> pool_returned s \<and> done_log s = []" if "threads \<le> 0"
  proof -
    have "num_workers (pool_bound ph threads) = 0"
      using that by (cases ph) (simp_all add: num_workers_def)
    then have "s = pool_init 0 items"
      using assms pool_no_workers [of items s] by (simp add: phase_pool_def)
    then show ?thesis by (simp add: pool_init_def pool_returned_def)
  qed
qed

lemma fold_ping_worker_mset:
  assumes "mset hs' = mset hs"
  shows "store (fold (ping_worker f) hs' st) = store (fold (ping_worker f) hs st)
     \<and> port_probed (fold (ping_worker f) hs' st) = port_probed (fold (ping_worker f) hs st)
     \<and> mset (pinged (fold (ping_worker f) hs' st)) = mset (pinged (fold (ping_worker f) hs st))
     \<and> set (liveHosts (fold (ping_worker f) hs' st)) = set (liveHosts (fold (ping_worker f) hs st))"
proof -
  have "set hs' = set hs" using assms by (metis set_mset_mset)
  then show ?thesis
    using fold_ping_worker [of f hs' st] fold_ping_worker [of f hs st] assms by simp
qed

lemma fold_port_worker_mset:
  assumes "mset hs' = mset hs"
  shows "store (fold (port_worker d) hs' st) = store (fold (port_worker d) hs st)
     \<and> pinged (fold (port_worker d) hs' st) = pinged (fold (port_worker d) hs st)
     \<and> mset (port_probed (fold (port_worker d) hs' st)) = mset (port_probed (fold (port_worker d) hs st))
     \<and> set (liveHosts (fold (port_worker d) hs' st)) = set (liveHosts (fold (port_worker d) hs st))"
proof -
  have "set hs' = set hs" using assms by (metis set_mset_mset)
  moreover have "mset (map (\<lambda>h. (h, snd (portDiscovery d h discoveryPorts))) hs')
      = mset (map (\<lambda>h. (h, snd (portDiscovery d h discoveryPorts))) hs)"
    using assms by (metis mset_map)
  ultimately show ?thesis
    using fold_port_worker [of d hs' st] fold_port_worker [of d hs st] by simp
qed

lemma phase1_run_agrees:
  assumes "pool_step\<^sup>*\<^sup>* (phase_pool PingPhase threads allHosts) s" "pool_returned s"
  shows "store (phase1_run pingHost s st) = store (phase1 pingHost threads allHosts st)
     \<and> port_probed (phase1_run pingHost s st) = port_probed (phase1 pingHost threads allHosts st)
     \<and> mset (pinged (phase1_run pingHost s st)) = mset (pinged (phase1 pingHost threads allHosts st))
     \<and> set (liveHosts (phase1_run pingHost s st)) = set (liveHosts (phase1 pingHost threads allHosts st))"
proof -
  have "mset (map snd (done_log s)) = mset (workerPool threads allHosts)"
    using phase_pool_facts(4) [OF assms] by simp
  from fold_ping_worker_mset [OF this] show ?thesis
    by (simp add: phase1_run_def phase1_def)
qed

lemma phase2_run_agrees:
  assumes "pool_step\<^sup>*\<^sup>* (phase_pool FallbackPhase threads (nonPingHosts allHosts st)) s"
    "pool_returned s"
  shows "store (phase2_run dial s st) = store (phase2 dial threads allHosts st)
     \<and> pinged (phase2_run dial s st) = pinged (phase2 dial threads allHosts st)
     \<and> mset (port_probed (phase2_run dial s st)) = mset (port_probed (phase2 dial threads allHosts st))
     \<and> set (liveHosts (phase2_run dial s st)) = set (liveHosts (phase2 dial threads allHosts st))"
proof -
  have m: "mset (map snd (done_log s)) = mset (workerPool (min threads 20) (nonPingHosts allHosts st))"
    using phase_pool_facts(4) [OF assms] by simp
  have "phase2 dial threads allHosts st
      = fold (port_worker dial) (workerPool (min threads 20) (nonPingHosts allHosts st)) st"
    by (cases "nonPingHosts allHosts st = []") (simp_all add: phase2_def workerPool_def)
  with fold_port_worker_mset [OF m] show ?thesis
    by (simp add: phase2_run_def)
qed

lemma PortScan_run_agrees:
  assumes "pool_step\<^sup>*\<^sup>* (phase_pool HostFanout threads hosts) s" "pool_returned s"
  shows "\<exists>horder. PortScan_run dial orders threads s res = PortScan dial orders horder threads hosts res"
proof -
  have "mset (map snd (done_log s)) = mset (workerPool threads hosts)"
    using phase_pool_facts(4) [OF assms] by simp
  from permute_complete [OF this] obtain ks where
    "permute ks (workerPool threads hosts) = map snd (done_log s)" by blast
  then have "PortScan_run dial orders threads s res = PortScan dial orders ks threads hosts res"
    by (simp add: PortScan_run_def PortScan_def)
  then show ?thesis by blast
qed

lemma scanHostPorts_run_agrees:
  assumes "pool_step\<^sup>*\<^sup>* (phase_pool PortFanout threads ports) s" "pool_returned s"
  shows "\<exists>order. fst (scanHostPorts_run dial host s res) = fst (scanHostPorts dial order threads host ports res)
           \<and> mset (snd (scanHostPorts_run dial host s res))
               = mset (snd (scanHostPorts dial order threads host ports res))"
proof -
  have m: "mset (map snd (done_log s)) = mset (workerPool (min threads 50) ports)"
    using phase_pool_facts(4) [OF assms] by simp
  then have "mset (filter (scanPort dial host) (map snd (done_log s)))
      = mset (filter (scanPort dial host) (workerPool (min threads 50) ports))"
    by (metis mset_filter)
  from permute_complete [OF this] obtain ks where
    ks: "permute ks (filter (scanPort dial host) (workerPool (min threads 50) ports))
      = filter (scanPort dial host) (map snd (done_log s))" by blast
  have l: "mset (map (\<lambda>port. (port, scanPort dial host port)) (map snd (done_log s)))
      = mset (map (\<lambda>port. (port, scanPort dial host port)) (workerPool (min threads 50) ports))"
    using m by (metis mset_map)
  have "fst (scanHostPorts_run dial host s res) = fst (scanHostPorts dial ks threads host ports res)
      \<and> mset (snd (scanHostPorts_run dial host s res))
               = mset (snd (scanHostPorts dial ks threads host ports res))"
    using l by (simp add: scanHostPorts_run_def scanHostPorts_def Let_def ks)
  then show ?thesis by blast
qed

lemma phase_runs_exactly_once:
  assumes "0 < threads"
  shows "pool_step\<^sup>*\<^sup>* (phase_pool PingPhase threads allHosts) s1 \<Longrightarrow> pool_returned s1 \<Longrightarrow>
           mset (pinged (phase1_run pingHost s1 st)) = mset (pinged st) + mset allHosts"
    and "pool_step\<^sup>*\<^sup>* (phase_pool FallbackPhase threads nph) s2 \<Longrightarrow> pool_returned s2 \<Longrightarrow>
           mset (map fst (port_probed (phase2_run dial s2 st')))
             = mset (map fst (port_probed st')) + mset nph"
    and "pool_step\<^sup>*\<^sup>* (phase_pool PortFanout threads ports) s4 \<Longrightarrow> pool_returned s4 \<Longrightarrow>
           mset (map fst (snd (scanHostPorts_run dial host s4 res))) = mset ports"
proof -
  assume r: "pool_step\<^sup>*\<^sup>* (phase_pool PingPhase threads allHosts) s1" "pool_returned s1"
  have "mset (map snd (done_log s1)) = mset allHosts"
    using phase_pool_facts(4) [OF r] assms by (simp add: workerPool_def)
  then show "mset (pinged (phase1_run pingHost s1 st)) = mset (pinged st) + mset allHosts"
    using fold_ping_worker [of pingHost "map snd (done_log s1)" st] by (simp add: phase1_run_def)
next
  assume r: "pool_step\<^sup>*\<^sup>* (phase_pool FallbackPhase threads nph) s2" "pool_returned s2"
  have "mset (map snd (done_log s2)) = mset nph"
    using phase_pool_facts(4) [OF r] assms by (simp add: workerPool_def)
  then show "mset (map fst (port_probed (phase2_run dial s2 st')))
      = mset (map fst (port_probed st')) + mset nph"
    using fold_port_worker [of dial "map snd (done_log s2)" st']
    by (simp add: phase2_run_def comp_def)
next
  assume r: "pool_step\<^sup>*\<^sup>* (phase_pool PortFanout threads ports) s4" "pool_returned s4"
  have "mset (map snd (done_log s4)) = mset ports"
    using phase_pool_facts(4) [OF r] assms by (simp add: workerPool_def)
  then show "mset (map fst (snd (scanHostPorts_run dial host s4 res))) = mset ports"
    by (simp add: scanHostPorts_run_def Let_def comp_def)
qed

text \<open>
  C2 (amended). Every pool of every phase starts as many workers as its loop bound says:
  the configured thread count for the ping phase and the host fan-out, capped at 20 for
  the liveness fallback and at 50 for the per-host port fan-out, so no item is ever
  processed by a worker numbered 20 (50) or more. In every run no item is processed more
  often than it was queued, each is processed by one of the started workers, and, for a
  thread count of at least 1, when the pool has returned every item has been processed
  exactly once (the processed items are the queued items as a multiset). There is no
  lower clamp: with a thread count of 0 or less no worker is started and the pool has
  returned at once with no item processed. A pool that has not returned can always take
  a step, and every step decreases a natural-number measure, so every run returns. The
  outcome of a phase whose pool has returned is an outcome of the phase's sequential
  definition: the same store, live hosts and probes for the two phases of host discovery,
  and the store of \<open>PortScan\<close> and \<open>scanHostPorts\<close> for some order of completion.
\<close>

theorem worker_pool_exactly_once:
  assumes "pool_step\<^sup>*\<^sup>* (phase_pool ph threads items) s"
    and "pool_step\<^sup>*\<^sup>* (phase_pool PingPhase threads allHosts) s1"
    and "pool_step\<^sup>*\<^sup>* (phase_pool FallbackPhase threads (nonPingHosts allHosts st')) s2"
    and "pool_step\<^sup>*\<^sup>* (phase_pool HostFanout threads hosts) s3"
    and "pool_step\<^sup>*\<^sup>* (phase_pool PortFanout threads ports) s4"
  shows "length (workers s) = num_workers (pool_bound ph threads)
     \<and> (0 < threads \<longrightarrow>
          length (workers s) = (case ph of PingPhase \<Rightarrow> nat threads
                                 | FallbackPhase \<Rightarrow> min (nat threads) 20
                                 | HostFanout \<Rightarrow> nat threads
                                 | PortFanout \<Rightarrow> min (nat threads) 50))
     \<and> length (workers s2) \<le> 20 \<and> (\<forall>e \<in> set (done_log s2). fst e < 20)
     \<and> length (workers s4) \<le> 50 \<and> (\<forall>e \<in> set (done_log s4). fst e < 50)
     \<and> (\<forall>e \<in> set (done_log s). fst e < length (workers s))
     \<and> mset (map snd (done_log s)) \<subseteq># mset items
     \<and> (0 < threads \<and> pool_returned s \<longrightarrow> mset (map snd (done_log s)) = mset items)
     \<and> (threads \<le> 0 \<longrightarrow> workers s = [] \<and> pool_returned s \<and> done_log s = [])
     \<and> (\<not> pool_returned s \<longrightarrow> (\<exists>s'. pool_step s s'))
     \<and> (\<forall>s'. pool_step s s' \<longrightarrow> pool_measure s' < pool_measure s)
     \<and> (pool_returned s1 \<longrightarrow>
          store (phase1_run pingHost s1 st) = store (phase1 pingHost threads allHosts st)
          \<and> port_probed (phase1_run pingHost s1 st) = port_probed (phase1 pingHost threads allHosts st)
          \<and> mset (pinged (phase1_run pingHost s1 st)) = mset (pinged (phase1 pingHost threads allHosts st))
          \<and> set (liveHosts (phase1_run pingHost s1 st))
              = set (liveHosts (phase1 pingHost threads allHosts st)))
     \<and> (pool_returned s2 \<longrightarrow>
          store (phase2_run dial s2 st') = store (phase2 dial threads allHosts st')
          \<and> pinged (phase2_run dial s2 st') = pinged (phase2 dial threads allHosts st')
          \<and> mset (port_probed (phase2_run dial s2 st'))
              = mset (port_probed (phase2 dial threads allHosts st'))
          \<and> set (liveHosts (phase2_run dial s2 st'))
              = set (liveHosts (phase2 dial threads allHosts st')))
     \<and> (pool_returned s3 \<longrightarrow>
          (\<exists>horder. PortScan_run dial orders threads s3 res
                      = PortScan dial orders horder threads hosts res))
     \<and> (pool_returned s4 \<longrightarrow>
          (\<exists>order. fst (scanHostPorts_run dial host s4 res)
                      = fst (scanHostPorts dial order threads host ports res)
                  \<and> mset (snd (scanHostPorts_run dial host s4 res))
                      = mset (snd (scanHostPorts dial order threads host ports res))))
     \<and> (0 < threads \<and> pool_returned s1 \<longrightarrow>
          mset (pinged (phase1_run pingHost s1 st)) = mset (pinged st) + mset allHosts)
     \<and> (0 < threads \<and> pool_returned s2 \<longrightarrow>
          mset (map fst (port_probed (phase2_run dial s2 st')))
            = mset (map fst (port_probed st')) + mset (nonPingHosts allHosts st'))
     \<and> (0 < threads \<and> pool_returned s4 \<longrightarrow>
          mset (map fst (snd (scanHostPorts_run dial host s4 res))) = mset ports)"
proof -
  note g = phase_pool_facts [OF assms(1)]
  have x1: "0 < threads \<and> pool_returned s1 \<longrightarrow>
          mset (pinged (phase1_run pingHost s1 st)) = mset (pinged st) + mset allHosts"
    using phase_runs_exactly_once(1) [OF _ assms(2)] by blast
  have x2: "0 < threads \<and> pool_returned s2 \<longrightarrow>
          mset (map fst (port_probed (phase2_run dial s2 st')))
            = mset (map fst (port_probed st')) + mset (nonPingHosts allHosts st')"
    using phase_runs_exactly_once(2) [OF _ assms(3)] by blast
  have x4: "0 < threads \<and> pool_returned s4 \<longrightarrow>
          mset (map fst (snd (scanHostPorts_run dial host s4 res))) = mset ports"
    using phase_runs_exactly_once(3) [OF _ assms(5)] by blast
  have g2: "0 < threads \<longrightarrow>
          length (workers s) = (case ph of PingPhase \<Rightarrow> nat threads
                                 | FallbackPhase \<Rightarrow> min (nat threads) 20
                                 | HostFanout \<Rightarrow> nat threads
                                 | PortFanout \<Rightarrow> min (nat threads) 50)"
    unfolding g(1) by (cases ph) (auto simp: num_workers_def min_def)
  have c2: "length (workers s2) \<le> 20"
    using phase_pool_facts(1) [OF assms(3)] by (auto simp: num_workers_def min_def)
  have d2: "\<forall>e \<in> set (done_log s2). fst e < 20"
    using phase_pool_facts(2) [OF assms(3)] c2 by fastforce
  have c4: "length (workers s4) \<le> 50"
    using phase_pool_facts(1) [OF assms(5)] by (auto simp: num_workers_def min_def)
  have d4: "\<forall>e \<in> set (done_log s4). fst e < 50"
    using phase_pool_facts(2) [OF assms(5)] c4 by fastforce
  have g6: "0 < threads \<and> pool_returned s \<longrightarrow> mset (map snd (done_log s)) = mset items"
    using g(4) by (cases ph) (auto simp: workerPool_def)
  have g7: "threads \<le> 0 \<longrightarrow> workers s = [] \<and> pool_returned s \<and> done_log s = []"
    using g(5) by blast
  have g8: "\<not> pool_returned s \<longrightarrow> (\<exists>s'. pool_step s s')"
    using pool_progress [of s] by blast
  have g9: "\<forall>s'. pool_step s s' \<longrightarrow> pool_measure s' < pool_measure s"
    using pool_step_measure [of s] by blast
  have h1: "pool_returned s1 \<longrightarrow>
          store (phase1_run pingHost s1 st) = store (phase1 pingHost threads allHosts st)
          \<and> port_probed (phase1_run pingHost s1 st) = port_probed (phase1 pingHost threads allHosts st)
          \<and> mset (pinged (phase1_run pingHost s1 st)) = mset (pinged (phase1 pingHost threads allHosts st))
          \<and> set (liveHosts (phase1_run pingHost s1 st))
              = set (liveHosts (phase1 pingHost threads allHosts st))"
    using phase1_run_agrees [OF assms(2)] by blast
  have h2: "pool_returned s2 \<longrightarrow>
          store (phase2_run dial s2 st') = store (phase2 dial threads allHosts st')
          \<and> pinged (phase2_run dial s2 st') = pinged (phase2 dial threads allHosts st')
          \<and> mset (port_probed (phase2_run dial s2 st'))
              = mset (port_probed (phase2 dial threads allHosts st'))
          \<and> set (liveHosts (phase2_run dial s2 st'))
              = set (liveHosts (phase2 dial threads allHosts st'))"
    using phase2_run_agrees [OF assms(3)] by blast
  have h3: "pool_returned s3 \<longrightarrow>
          (\<exists>horder. PortScan_run dial orders threads s3 res
                      = PortScan dial orders horder threads hosts res)"
    using PortScan_run_agrees [OF assms(4)] by blast
  have h4: "pool_returned s4 \<longrightarrow>
          (\<exists>order. fst (scanHostPorts_run dial host s4 res)
                      = fst (scanHostPorts dial order threads host ports res)
                  \<and> mset (snd (scanHostPorts_run dial host s4 res))
                      = mset (snd (scanHostPorts dial order threads host ports res)))"
    using scanHostPorts_run_agrees [OF assms(5)] by blast
  show ?thesis
    using g(1) g2 c2 d2 c4 d4 g(2) g(3) g6 g7 g8 g9 h1 h2 h3 h4 x1 x2 x4 by (intro conjI)
qed

lemma replicate_two: "replicate 2 x = [x, x]"
  by (simp add: numeral_2_eq_2)

lemmas pool_eval = phase_pool_def pool_init_def num_workers_def pool_returned_def replicate_two

theorem worker_pool_exactly_once_witness:
  "run_schedule [0, 1, 1, 1, 0, 1, 0, 1] (phase_pool PingPhase 2 [''10.0.0.1'', ''10.0.0.2'', ''10.0.0.3''])
     = Some \<lparr> chan = [], workers = [Exited, Exited],
              done_log = [(1, ''10.0.0.2''), (0, ''10.0.0.1''), (1, ''10.0.0.3'')] \<rparr>
   \<and> mset (map snd [(1::nat, ''10.0.0.2''), (0, ''10.0.0.1''), (1, ''10.0.0.3'')])
       = mset [''10.0.0.1'', ''10.0.0.2'', ''10.0.0.3'']
   \<and> set (liveHosts (phase1_run (\<lambda>h. h = ''10.0.0.1'')
         \<lparr> chan = [], workers = [Exited, Exited],
           done_log = [(1, ''10.0.0.2''), (0, ''10.0.0.1''), (1, ''10.0.0.3'')] \<rparr>
         \<lparr> store = Results (NewPDive2 [''10.0.0.0/30''] ''out'' 2 ''active'' 0), liveHosts = [],
           pinged = [], port_probed = [] \<rparr>)) = {''10.0.0.1''}
   \<and> run_schedule [1, 1, 0, 0, 1, 0] (phase_pool FallbackPhase 2 [''10.0.0.2'', ''10.0.0.3''])
     = Some \<lparr> chan = [], workers = [Exited, Exited],
              done_log = [(1, ''10.0.0.2''), (0, ''10.0.0.3'')] \<rparr>
   \<and> run_schedule [0, 1, 0, 0, 1, 0, 0, 1] (phase_pool PortFanout 2 [22, 80, 443 :: int])
     = Some \<lparr> chan = [], workers = [Exited, Exited],
              done_log = [(0, 22), (1, 80), (0, 443)] \<rparr>
   \<and> mset (map fst (port_probed (phase2_run (\<lambda>h port. h = ''10.0.0.2'' \<and> port = 443)
         \<lparr> chan = [], workers = [Exited, Exited],
           done_log = [(1, ''10.0.0.2''), (0, ''10.0.0.3'')] \<rparr>
         (phase1 (\<lambda>h. h = ''10.0.0.1'') 2 [''10.0.0.1'', ''10.0.0.2'', ''10.0.0.3'']
            \<lparr> store = Results (NewPDive2 [''10.0.0.0/30''] ''out'' 2 ''active'' 0), liveHosts = [],
              pinged = [], port_probed = [] \<rparr>))))
       = mset [''10.0.0.2'', ''10.0.0.3'']
   \<and> mset (map fst (snd (scanHostPorts_run (\<lambda>h port. h = ''10.0.0.2'' \<and> port = 443) ''10.0.0.1''
         \<lparr> chan = [], workers = [Exited, Exited], done_log = [(0, 22), (1, 80), (0, 443)] \<rparr>
         (Results (NewPDive2 [''10.0.0.0/30''] ''out'' 2 ''active'' 0)))))
       = mset [22, 80, 443]
   \<and> (\<exists>s'. pool_step (phase_pool PingPhase 2 [''10.0.0.1'', ''10.0.0.2'', ''10.0.0.3'']) s')
   \<and> pool_returned (phase_pool HostFanout 0 [''10.0.0.1''])
   \<and> length (workers (phase_pool PingPhase 100 [''10.0.0.1''])) = 100
   \<and> length (workers (phase_pool FallbackPhase 100 [''10.0.0.1''])) = 20
   \<and> length (workers (phase_pool PortFanout 100 [22 :: int])) = 50"
proof -
  let ?hosts = "[''10.0.0.1'', ''10.0.0.2'', ''10.0.0.3'']"
  let ?st = "\<lparr> store = Results (NewPDive2 [''10.0.0.0/30''] ''out'' 2 ''active'' 0), liveHosts = [],
           pinged = [], port_probed = [] \<rparr>"
  let ?st' = "phase1 (\<lambda>h. h = ''10.0.0.1'') 2 ?hosts ?st"
  let ?s1 = "\<lparr> chan = [], workers = [Exited, Exited],
              done_log = [(1, ''10.0.0.2''), (0, ''10.0.0.1''), (1, ''10.0.0.3'')] \<rparr> :: string pool"
  let ?s2 = "\<lparr> chan = [], workers = [Exited, Exited],
              done_log = [(1, ''10.0.0.2''), (0, ''10.0.0.3'')] \<rparr> :: string pool"
  let ?s3 = "\<lparr> chan = [], workers = [Exited, Exited],
              done_log = [(1, ''10.0.0.2''), (0, ''10.0.0.1'')] \<rparr> :: string pool"
  let ?s4 = "\<lparr> chan = [], workers = [Exited, Exited],
              done_log = [(0, 22), (1, 80), (0, 443)] \<rparr> :: int pool"
  have e1: "run_schedule [0, 1, 1, 1, 0, 1, 0, 1] (phase_pool PingPhase 2 ?hosts) = Some ?s1"
    by (simp add: pool_eval)
  have nph: "nonPingHosts ?hosts ?st' = [''10.0.0.2'', ''10.0.0.3'']"
    by (simp add: discovery_eval)
  have e2: "run_schedule [1, 1, 0, 0, 1, 0] (phase_pool FallbackPhase 2 [''10.0.0.2'', ''10.0.0.3'']) = Some ?s2"
    by (simp add: pool_eval)
  have e3: "run_schedule [0, 1, 1, 0, 0, 1] (phase_pool HostFanout 2 [''10.0.0.1'', ''10.0.0.2'']) = Some ?s3"
    by (simp add: pool_eval)
  have e4: "run_schedule [0, 1, 0, 0, 1, 0, 0, 1] (phase_pool PortFanout 2 [22, 80, 443 :: int]) = Some ?s4"
    by (simp add: pool_eval)
  have r1: "pool_step\<^sup>*\<^sup>* (phase_pool PingPhase 2 ?hosts) ?s1"
    using e1 by (rule run_schedule_sound)
  have r2: "pool_step\<^sup>*\<^sup>* (phase_pool FallbackPhase 2 (nonPingHosts ?hosts ?st')) ?s2"
    unfolding nph using e2 by (rule run_schedule_sound)
  have r3: "pool_step\<^sup>*\<^sup>* (phase_pool HostFanout 2 [''10.0.0.1'', ''10.0.0.2'']) ?s3"
    using e3 by (rule run_schedule_sound)
  have r4: "pool_step\<^sup>*\<^sup>* (phase_pool PortFanout 2 [22, 80, 443 :: int]) ?s4"
    using e4 by (rule run_schedule_sound)
  have ret: "pool_returned ?s1" by (simp add: pool_returned_def)
  have ret2: "pool_returned ?s2" by (simp add: pool_returned_def)
  have ret4: "pool_returned ?s4" by (simp add: pool_returned_def)
  note A = worker_pool_exactly_once [OF r1 r1 r2 r3 r4, of "\<lambda>h. h = ''10.0.0.1''" ?st
      "\<lambda>h port. h = ''10.0.0.2'' \<and> port = 443" "\<lambda>h. []"
      "Results (NewPDive2 [''10.0.0.0/30''] ''out'' 2 ''active'' 0)" "''10.0.0.1''"]
  have once: "mset (map snd [(1::nat, ''10.0.0.2''), (0, ''10.0.0.1''), (1, ''10.0.0.3'')]) = mset ?hosts"
    using A [THEN conjunct2, THEN conjunct2, THEN conjunct2, THEN conjunct2, THEN conjunct2, THEN conjunct2, THEN conjunct2, THEN conjunct2, THEN conjunct1] ret by simp
  have live: "set (liveHosts (phase1_run (\<lambda>h. h = ''10.0.0.1'') ?s1 ?st)) = {''10.0.0.1''}"
  proof -
    have "set (liveHosts (phase1_run (\<lambda>h. h = ''10.0.0.1'') ?s1 ?st)) = set (liveHosts ?st')"
      using A [THEN conjunct2, THEN conjunct2, THEN conjunct2, THEN conjunct2, THEN conjunct2, THEN conjunct2, THEN conjunct2, THEN conjunct2, THEN conjunct2, THEN conjunct2, THEN conjunct2, THEN conjunct2, THEN conjunct1] ret by blast
    also have "\<dots> = {''10.0.0.1''}" by (simp add: discovery_eval)
    finally show ?thesis .
  qed
  have probed: "mset (map fst (port_probed (phase2_run (\<lambda>h port. h = ''10.0.0.2'' \<and> port = 443) ?s2 ?st')))
      = mset [''10.0.0.2'', ''10.0.0.3'']"
  proof -
    have "mset (map fst (port_probed (phase2_run (\<lambda>h port. h = ''10.0.0.2'' \<and> port = 443) ?s2 ?st')))
        = mset (map fst (port_probed ?st')) + mset (nonPingHosts ?hosts ?st')"
      using A [THEN conjunct2, THEN conjunct2, THEN conjunct2, THEN conjunct2, THEN conjunct2, THEN conjunct2, THEN conjunct2, THEN conjunct2, THEN conjunct2, THEN conjunct2, THEN conjunct2, THEN conjunct2, THEN conjunct2, THEN conjunct2, THEN conjunct2, THEN conjunct2, THEN conjunct2, THEN conjunct1] ret2 by simp
    also have "\<dots> = mset [''10.0.0.2'', ''10.0.0.3'']"
      unfolding nph by (simp add: discovery_eval)
    finally show ?thesis .
  qed
  have ports: "mset (map fst (snd (scanHostPorts_run (\<lambda>h port. h = ''10.0.0.2'' \<and> port = 443) ''10.0.0.1'' ?s4
        (Results (NewPDive2 [''10.0.0.0/30''] ''out'' 2 ''active'' 0))))) = mset [22, 80, 443]"
    using A [THEN conjunct2, THEN conjunct2, THEN conjunct2, THEN conjunct2, THEN conjunct2, THEN conjunct2, THEN conjunct2, THEN conjunct2, THEN conjunct2, THEN conjunct2, THEN conjunct2, THEN conjunct2, THEN conjunct2, THEN conjunct2, THEN conjunct2, THEN conjunct2, THEN conjunct2, THEN conjunct2] ret4 by simp
  have i0: "pool_step\<^sup>*\<^sup>* (phase_pool PingPhase 2 ?hosts) (phase_pool PingPhase 2 ?hosts)"
    by simp
  have nr: "\<not> pool_returned (phase_pool PingPhase 2 ?hosts)"
    by (simp add: pool_eval)
  have step: "\<exists>s'. pool_step (phase_pool PingPhase 2 ?hosts) s'"
    using worker_pool_exactly_once [OF i0 r1 r2 r3 r4, THEN conjunct2, THEN conjunct2, THEN conjunct2, THEN conjunct2, THEN conjunct2, THEN conjunct2, THEN conjunct2, THEN conjunct2, THEN conjunct2, THEN conjunct2, THEN conjunct1] nr by blast
  have y: "pool_step\<^sup>*\<^sup>* (phase_pool ph 0 xs) (phase_pool ph 0 xs)" for ph and xs :: "'b list"
    by simp
  have zero: "pool_returned (phase_pool HostFanout 0 [''10.0.0.1''])"
    using worker_pool_exactly_once [OF y [of HostFanout "[''10.0.0.1'']"] y [of PingPhase "[]"]
        y [of FallbackPhase "nonPingHosts [] ?st"] y [of HostFanout "[]"] y [of PortFanout "[]"],
        THEN conjunct2, THEN conjunct2, THEN conjunct2, THEN conjunct2, THEN conjunct2, THEN conjunct2, THEN conjunct2, THEN conjunct2, THEN conjunct2, THEN conjunct1]
    by simp
  have z1: "pool_step\<^sup>*\<^sup>* (phase_pool ph 100 [''10.0.0.1'']) (phase_pool ph 100 [''10.0.0.1''])" for ph
    by simp
  have z2: "pool_step\<^sup>*\<^sup>* (phase_pool FallbackPhase 100 (nonPingHosts [''10.0.0.1''] ?st))
      (phase_pool FallbackPhase 100 (nonPingHosts [''10.0.0.1''] ?st))"
    by simp
  have z4: "pool_step\<^sup>*\<^sup>* (phase_pool PortFanout 100 [22 :: int]) (phase_pool PortFanout 100 [22])"
    by simp
  note B = worker_pool_exactly_once [OF _ z1 [of PingPhase] z2 z1 [of HostFanout] z4, THEN conjunct2,
      THEN conjunct1]
  have n1: "length (workers (phase_pool PingPhase 100 [''10.0.0.1''])) = 100"
    using B [OF z1 [of PingPhase]] by simp
  have n2: "length (workers (phase_pool FallbackPhase 100 [''10.0.0.1''])) = 20"
    using B [OF z1 [of FallbackPhase]] by simp
  have n3: "length (workers (phase_pool PortFanout 100 [22 :: int])) = 50"
    using B [OF z4] by simp
  show ?thesis using e1 once live e2 e4 probed ports step zero n1 n2 n3 by (intro conjI)
qed

text \<open>
  C2 as stated fails at a thread count of 0: the pool of the ping phase has no worker (the
  count is not clamped to 1), it has returned in its initial state, and the queued host
  has not been processed; the sequential definition of the phase pings no host.
\<close>

theorem worker_pool_zero_threads_counterexample:
  "pool_returned (phase_pool PingPhase 0 [''10.0.0.1''])
   \<and> length (workers (phase_pool PingPhase 0 [''10.0.0.1''])) = 0
   \<and> mset (map snd (done_log (phase_pool PingPhase 0 [''10.0.0.1'']))) \<noteq> mset [''10.0.0.1'']
   \<and> pinged (phase1 (\<lambda>h. True) 0 [''10.0.0.1'']
        \<lparr> store = Results (NewPDive2 [''10.0.0.1''] ''out'' 0 ''active'' 0), liveHosts = [],
          pinged = [], port_probed = [] \<rparr>) = []"
  by (simp add: pool_eval phase1_def workerPool_def)

end
